theory Spec2Isabelle
  imports Main "HOL-Library.Word"
begin

unbundle bit_operations_syntax

section \<open>The cache simulator of cachesim.c\<close>

text \<open>
  The simulator keeps, for each of its sets, an array of \<open>E\<close> cache lines, and four global
  counters. \<open>read_file\<close> reads the trace line by line and updates the cache and the counters;
  \<open>main\<close> checks the command line, builds the zeroed cache and calls \<open>read_file\<close>.

  Types of the source: \<open>ull\<close> is \<open>unsigned long long\<close>, a 64-bit word whose arithmetic wraps
  around; \<open>char\<close> is an 8-bit word; \<open>int\<close> is a 32-bit signed integer, whose overflow is
  undefined in C. The model computes \<open>int\<close> values as integers and reports the undefined
  cases of the source (a shift by a negative or too large count, an \<open>int\<close> leaving its range,
  an access outside an array) as values of type \<open>error\<close>.
\<close>

type_synonym ull = "64 word"

datatype error =
    Missing_Argument      \<comment> \<open>main: a required command line argument is 0 or absent\<close>
  | Undefined_Shift       \<comment> \<open>a shift by a negative count or by the width or more\<close>
  | Signed_Overflow       \<comment> \<open>an int (or a conversion to int) outside \<open>INT_MIN .. INT_MAX\<close>\<close>
  | Out_Of_Bounds         \<comment> \<open>an access outside a malloc'ed array\<close>

definition INT_MAX :: int where
  "INT_MAX = 2147483647"

subsection \<open>Data\<close>

text \<open>\<open>struct cache_line\<close>: \<open>char valid_bit; ull lru; ull tag;\<close>\<close>

record cache_line =
  valid_bit :: "8 word"
  lru :: ull
  tag :: ull

text \<open>
  The globals that \<open>read_file\<close> changes, and the cache it is given: \<open>cache ! i\<close> is the
  array \<open>cache[i]\<close> of the lines of set \<open>i\<close>.
\<close>

record sim =
  cache :: "cache_line list list"
  miss_count :: int
  hit_count :: int
  eviction_count :: int
  global_timer :: ull

text \<open>
  One line of the trace file as \<open>sscanf(buf, " %c %llx,%d ", &instruct, &address, &size)\<close>
  reads it. Opening the file and splitting it into lines are not modelled: the trace is the
  list of the parsed lines.
\<close>

record trace_line =
  instruct :: char
  address :: ull
  size :: int

subsection \<open>Address decoding (lines 71-72)\<close>

text \<open>
  \<open>ull tag = (address >> (b + s));\<close>
  \<open>ull index = (address >> b) & ((1 << s) - 1);\<close>

  Both right shifts are on the 64-bit \<open>address\<close>: their count must lie in \<open>0 .. 63\<close>.
  \<open>1 << s\<close> is a shift of the \<open>int\<close> constant 1: it is defined when \<open>0 \<le> s\<close> and
  \<open>2 ^ s\<close> fits an \<open>int\<close>, that is \<open>s \<le> 30\<close>. The \<open>int\<close> \<open>(1 << s) - 1\<close> is converted
  (sign-extended) to \<open>ull\<close> for the \<open>&\<close>.
\<close>

definition decode :: "int \<Rightarrow> int \<Rightarrow> ull \<Rightarrow> error + (ull \<times> ull)" where
  "decode s b addr =
     (if \<not> (0 \<le> b + s \<and> b + s < 64) then Inl Undefined_Shift
      else if \<not> (0 \<le> b \<and> b < 64) then Inl Undefined_Shift
      else if \<not> (0 \<le> s \<and> s < 32) then Inl Undefined_Shift
      else if \<not> (s < 31) then Inl Signed_Overflow
      else Inr (drop_bit (nat (b + s)) addr,
                drop_bit (nat b) addr AND scast (push_bit (nat s) (1 :: 32 word) - 1)))"

subsection \<open>One access (lines 77-140)\<close>

text \<open>
  \<open>currentSet\<close> is the pointer \<open>cache[index]\<close>: reading \<open>currentSet[i]\<close> reads
  \<open>cache[index][i]\<close>, and an assignment to a field of \<open>currentSet[i]\<close> changes that line
  of the cache. The sets are separate arrays, so no other line changes.
\<close>

definition get_line :: "sim \<Rightarrow> nat \<Rightarrow> nat \<Rightarrow> cache_line" where
  "get_line st index i = cache st ! index ! i"

definition set_line :: "nat \<Rightarrow> nat \<Rightarrow> cache_line \<Rightarrow> sim \<Rightarrow> sim" where
  "set_line index i ln st = st\<lparr>cache := (cache st)[index := (cache st ! index)[i := ln]]\<rparr>"

text \<open>
  The body of the first loop (lines 85-97), at slot \<open>i\<close>. The state of a loop is the local
  \<open>if_dealt_with\<close> paired with the globals. The first branch is a hit; the second is a miss
  on a line that has the tag but is not valid.
\<close>

definition lookup_body :: "ull \<Rightarrow> nat \<Rightarrow> nat \<Rightarrow> int \<times> sim \<Rightarrow> int \<times> sim" where
  "lookup_body tg index i p =
     (let if_dealt_with = fst p; st = snd p; ln = get_line st index i in
      if tg = tag ln \<and> valid_bit ln = 1 \<and> if_dealt_with = 0 then
        (if_dealt_with + 1,
         set_line index i (ln\<lparr>lru := global_timer st\<rparr>) (st\<lparr>hit_count := hit_count st + 1\<rparr>))
      else if tg = tag ln \<and> valid_bit ln \<noteq> 1 \<and> if_dealt_with = 0 then
        (if_dealt_with + 1,
         set_line index i (ln\<lparr>valid_bit := 1, lru := global_timer st\<rparr>)
           (st\<lparr>miss_count := miss_count st + 1\<rparr>))
      else p)"

text \<open>The body of the second loop (lines 103-109): the first line with \<open>lru == 0\<close> is filled.\<close>

definition fill_body :: "ull \<Rightarrow> nat \<Rightarrow> nat \<Rightarrow> int \<times> sim \<Rightarrow> int \<times> sim" where
  "fill_body tg index i p =
     (let if_dealt_with = fst p; st = snd p; ln = get_line st index i in
      if lru ln = 0 \<and> if_dealt_with = 0 then
        (if_dealt_with + 1,
         set_line index i (ln\<lparr>tag := tg, valid_bit := 1, lru := global_timer st\<rparr>)
           (st\<lparr>miss_count := miss_count st + 1\<rparr>))
      else p)"

text \<open>The loop of lines 116-121: the slot of the least \<open>lru\<close>, the first one among equals.\<close>

definition min_body :: "sim \<Rightarrow> nat \<Rightarrow> nat \<Rightarrow> nat \<Rightarrow> nat" where
  "min_body st index i min_index =
     (if lru (get_line st index i) < lru (get_line st index min_index) then i else min_index)"

definition find_min_index :: "int \<Rightarrow> nat \<Rightarrow> sim \<Rightarrow> nat" where
  "find_min_index E index st = fold (min_body st index) [1..<nat E] 0"

text \<open>Lines 114-126: the eviction. It leaves \<open>if_dealt_with\<close> at 0.\<close>

definition evict :: "int \<Rightarrow> ull \<Rightarrow> nat \<Rightarrow> sim \<Rightarrow> sim" where
  "evict E tg index st =
     (let st1 = st\<lparr>miss_count := miss_count st + 1\<rparr>;
          min_index = find_min_index E index st1;
          st2 = st1\<lparr>eviction_count := eviction_count st1 + 1\<rparr>
      in set_line index min_index
           ((get_line st2 index min_index)\<lparr>tag := tg, valid_bit := 1, lru := global_timer st2\<rparr>)
           st2)"

text \<open>
  Lines 78-126, what an \<open>L\<close>, \<open>S\<close> or \<open>M\<close> line does first: the lookup loop, then the fill
  loop if the lookup dealt with nothing, then the eviction if the fill loop dealt with
  nothing.
\<close>

definition lookup_fill_evict :: "int \<Rightarrow> ull \<Rightarrow> nat \<Rightarrow> sim \<Rightarrow> sim" where
  "lookup_fill_evict E tg index st =
     (let p1 = fold (lookup_body tg index) [0..<nat E] (0, st);
          p2 = (if fst p1 = 0 then fold (fill_body tg index) [0..<nat E] p1 else p1)
      in if fst p2 = 0 then evict E tg index (snd p2) else snd p2)"

text \<open>
  The body of the loop of an \<open>M\<close> line (lines 134-138), with its own \<open>if_dealt_with\<close>: a hit
  or nothing.
\<close>

definition modify_body :: "ull \<Rightarrow> nat \<Rightarrow> nat \<Rightarrow> int \<times> sim \<Rightarrow> int \<times> sim" where
  "modify_body tg index i p =
     (let if_dealt_with = fst p; st = snd p; ln = get_line st index i in
      if tg = tag ln \<and> valid_bit ln = 1 \<and> if_dealt_with = 0 then
        (if_dealt_with + 1,
         set_line index i (ln\<lparr>lru := global_timer st\<rparr>) (st\<lparr>hit_count := hit_count st + 1\<rparr>))
      else p)"

definition modify_lookup :: "int \<Rightarrow> ull \<Rightarrow> nat \<Rightarrow> sim \<Rightarrow> int \<times> sim" where
  "modify_lookup E tg index st = fold (modify_body tg index) [0..<nat E] (0, st)"

subsection \<open>One line of the trace, and the whole trace\<close>

text \<open>
  The accesses to \<open>cache[index]\<close> and \<open>currentSet[i]\<close> are within the arrays when the cache
  has a set \<open>index\<close> and that set has the slots the loops touch: the first loop reads every
  slot below \<open>E\<close>, and when \<open>E \<le> 0\<close> no loop runs and the eviction writes slot 0.
\<close>

definition in_bounds :: "int \<Rightarrow> nat \<Rightarrow> sim \<Rightarrow> bool" where
  "in_bounds E index st \<longleftrightarrow>
     index < length (cache st) \<and> max E 1 \<le> int (length (cache st ! index))"

text \<open>
  The counters are \<open>int\<close>s that are only ever incremented: an increment overflowed
  exactly when the counter has left the range of \<open>int\<close>.
\<close>

definition overflowed :: "sim \<Rightarrow> bool" where
  "overflowed st \<longleftrightarrow>
     INT_MAX < miss_count st \<or> INT_MAX < hit_count st \<or> INT_MAX < eviction_count st"

definition is_data_access :: "char \<Rightarrow> bool" where
  "is_data_access c \<longleftrightarrow> c = CHR ''L'' \<or> c = CHR ''S'' \<or> c = CHR ''M''"

text \<open>
  The body of the \<open>while\<close> loop of \<open>read_file\<close> (lines 63-140) for one parsed line: the
  address is decoded and \<open>global_timer\<close> incremented whatever the instruction is. Then
  come the two \<open>if\<close>s on \<open>instruct\<close>, the first for \<open>L\<close>, \<open>S\<close> and \<open>M\<close>, the second for
  \<open>M\<close> alone: a line with another instruction enters neither.
\<close>

definition process_line :: "int \<Rightarrow> int \<Rightarrow> int \<Rightarrow> trace_line \<Rightarrow> sim \<Rightarrow> error + sim" where
  "process_line s b E ln st =
     (case decode s b (address ln) of
        Inl e \<Rightarrow> Inl e
      | Inr (tg, index) \<Rightarrow>
          let st1 = st\<lparr>global_timer := global_timer st + 1\<rparr> in
          if \<not> is_data_access (instruct ln) then Inr st1
          else if \<not> in_bounds E (unat index) st1 then Inl Out_Of_Bounds
          else
            let st2 = lookup_fill_evict E tg (unat index) st1;
                st3 = (if instruct ln = CHR ''M''
                       then snd (modify_lookup E tg (unat index) st2) else st2)
            in if overflowed st3 then Inl Signed_Overflow else Inr st3)"

text \<open>The \<open>while\<close> loop of \<open>read_file\<close>, over the lines of the trace in order.\<close>

fun read_file :: "int \<Rightarrow> int \<Rightarrow> int \<Rightarrow> trace_line list \<Rightarrow> sim \<Rightarrow> error + sim" where
  "read_file s b E [] st = Inr st"
| "read_file s b E (ln # lns) st =
     (case process_line s b E ln st of
        Inl e \<Rightarrow> Inl e
      | Inr st' \<Rightarrow> read_file s b E lns st')"

subsection \<open>main (lines 210-245)\<close>

text \<open>
  \<open>(int) pow(2, x)\<close>: a power of two below 1 is truncated to 0; from \<open>2 ^ 31\<close> on the
  value does not fit an \<open>int\<close> and the conversion is undefined.
\<close>

definition pow2_int :: "int \<Rightarrow> error + int" where
  "pow2_int x =
     (if x < 0 then Inr 0 else if x \<le> 30 then Inr (2 ^ nat x) else Inl Signed_Overflow)"

text \<open>Lines 231-239: \<open>S\<close> sets of \<open>E\<close> lines each, every field 0; and the counters at start.\<close>

definition zero_line :: cache_line where
  "zero_line = \<lparr>valid_bit = 0, lru = 0, tag = 0\<rparr>"

definition init_cache :: "int \<Rightarrow> int \<Rightarrow> cache_line list list" where
  "init_cache S E = replicate (nat S) (replicate (nat E) zero_line)"

definition initial :: "int \<Rightarrow> int \<Rightarrow> sim" where
  "initial S E =
     \<lparr>cache = init_cache S E, miss_count = 0, hit_count = 0, eviction_count = 0,
      global_timer = 0\<rparr>"

text \<open>
  \<open>main\<close> after the options are parsed: \<open>s\<close>, \<open>E\<close>, \<open>b\<close> are the values \<open>atoi\<close> gave (0 for an
  option that was not given), \<open>trace_file\<close> is the name given with \<open>-t\<close>, if any, and \<open>lns\<close>
  the parsed lines of that file. The result is what \<open>printSummary\<close> is called with: hits,
  misses, evictions. \<open>malloc\<close> is taken to succeed.
\<close>

definition main :: "int \<Rightarrow> int \<Rightarrow> int \<Rightarrow> string option \<Rightarrow> trace_line list
    \<Rightarrow> error + (int \<times> int \<times> int)" where
  "main s E b trace_file lns =
     (if s = 0 \<or> E = 0 \<or> b = 0 \<or> trace_file = None then Inl Missing_Argument
      else case pow2_int s of
        Inl e \<Rightarrow> Inl e
      | Inr S \<Rightarrow>
         (case pow2_int b of
            Inl e \<Rightarrow> Inl e
          | Inr B \<Rightarrow>
             (case read_file s b E lns (initial S E) of
                Inl e \<Rightarrow> Inl e
              | Inr st \<Rightarrow> Inr (hit_count st, miss_count st, eviction_count st))))"

section \<open>Predicates of the statements\<close>

text \<open>
  The geometries on which every line of a trace is processed without undefined behaviour:
  the shifts of the decoder are in range, a set has at least one line, and the cache has
  the \<open>S = 2 ^ s\<close> sets that an index of \<open>s\<close> bits can select.
\<close>

definition valid_geometry :: "int \<Rightarrow> int \<Rightarrow> int \<Rightarrow> int \<Rightarrow> bool" where
  "valid_geometry s b E S \<longleftrightarrow>
     0 \<le> s \<and> s \<le> 30 \<and> 0 \<le> b \<and> b + s \<le> 63 \<and> 1 \<le> E \<and> S = 2 ^ nat s"

text \<open>
  The shape of a set that the accesses maintain: a line that is not valid is still as
  \<open>main\<close> initialised it; the valid lines come first; no two valid lines have the same tag.
\<close>

definition set_ok :: "cache_line list \<Rightarrow> bool" where
  "set_ok cs \<longleftrightarrow>
     (\<forall>i<length cs. valid_bit (cs ! i) \<noteq> 1 \<longrightarrow> cs ! i = zero_line) \<and>
     (\<forall>i<length cs. \<forall>j<i. valid_bit (cs ! i) = 1 \<longrightarrow> valid_bit (cs ! j) = 1) \<and>
     (\<forall>i<length cs. \<forall>j<length cs.
        valid_bit (cs ! i) = 1 \<and> valid_bit (cs ! j) = 1 \<and> tag (cs ! i) = tag (cs ! j)
          \<longrightarrow> i = j)"

definition cache_ok :: "int \<Rightarrow> sim \<Rightarrow> bool" where
  "cache_ok E st \<longleftrightarrow> (\<forall>cs\<in>set (cache st). length cs = nat E \<and> set_ok cs)"

text \<open>No set holds two valid lines with the same tag.\<close>

definition no_duplicate_tags :: "sim \<Rightarrow> bool" where
  "no_duplicate_tags st \<longleftrightarrow>
     (\<forall>cs\<in>set (cache st). \<forall>i<length cs. \<forall>j<length cs.
        valid_bit (cs ! i) = 1 \<and> valid_bit (cs ! j) = 1 \<and> tag (cs ! i) = tag (cs ! j)
          \<longrightarrow> i = j)"

text \<open>Every valid line carries a time stamp other than 0.\<close>

definition lines_stamped :: "sim \<Rightarrow> bool" where
  "lines_stamped st \<longleftrightarrow> (\<forall>cs\<in>set (cache st). \<forall>ln\<in>set cs. valid_bit ln = 1 \<longrightarrow> lru ln \<noteq> 0)"

text \<open>The number of lines of a trace with a given instruction character.\<close>

definition count_instruct :: "char \<Rightarrow> trace_line list \<Rightarrow> nat" where
  "count_instruct c lns = length (filter (\<lambda>ln. instruct ln = c) lns)"

section \<open>Properties\<close>

subsection \<open>The address decoder\<close>

lemma scast_mask32:
  assumes "n \<le> 30"
  shows "(scast (2 ^ n - 1 :: 32 word) :: 64 word) = mask n"
proof -
  have "(2 ^ n - 1 :: 32 word) = mask n"
    by (simp add: mask_eq_exp_minus_1)
  moreover have "(scast (mask n :: 32 word) :: 64 word) = mask n"
    using assms by (intro bit_word_eqI) (auto simp add: bit_simps)
  ultimately show ?thesis by simp
qed

lemma unat_and_mask64: "unat ((w::64 word) AND mask n) = unat w mod 2 ^ n"
  by (simp add: take_bit_eq_mask [symmetric] unsigned_take_bit_eq take_bit_nat_def)

lemma unat_drop_bit64: "unat (drop_bit n (w::64 word)) = unat w div 2 ^ n"
  by (metis drop_bit_eq_div unat_drop_bit_eq)

lemma decode_defined:
  assumes "0 \<le> s" and "s \<le> 30" and "0 \<le> b" and "b + s \<le> 63"
  shows "decode s b addr
           = Inr (drop_bit (nat (b + s)) addr, drop_bit (nat b) addr AND mask (nat s))"
  using assms by (simp add: decode_def scast_mask32)

text \<open>
  C4, as amended. For every 64-bit address and every geometry with \<open>1 \<le> s \<le> 30\<close>, \<open>1 \<le> b\<close>
  and \<open>s + b \<le> 63\<close>, the decoder is defined (no shift is out of range and \<open>1 << s\<close> does not
  overflow) and computes \<open>index = (address >> b) mod 2 ^ s\<close> and \<open>tag = address >> (b + s)\<close>,
  read as natural numbers.
\<close>

theorem decode_correct:
  assumes "1 \<le> s" and "s \<le> 30" and "1 \<le> b" and "b + s \<le> 63"
  shows "\<exists>tg index. decode s b addr = Inr (tg, index)
           \<and> unat index = (unat addr div 2 ^ nat b) mod 2 ^ nat s
           \<and> unat tg = unat addr div 2 ^ nat (b + s)"
  using assms by (simp add: decode_defined unat_and_mask64 unat_drop_bit64)

theorem decode_correct_witness:
  "(1::int) \<le> 4 \<and> (4::int) \<le> 30 \<and> (4::int) + 4 \<le> 63 \<and>
   (\<exists>tg index. decode 4 4 0x1234 = Inr (tg, index) \<and> unat index = 3 \<and> unat tg = 18)"
  using decode_correct [of 4 4 "0x1234"] by simp

text \<open>
  C4 as stated fails within \<open>s \<ge> 1\<close>, \<open>b \<ge> 1\<close>, \<open>s + b \<le> 64\<close>: with \<open>s = 31\<close> the \<open>int\<close>
  shift \<open>1 << s\<close> overflows, and with \<open>s + b = 64\<close> the tag's shift count is the width of
  the address.
\<close>

theorem decode_counterexample:
  "decode 31 1 0 = Inl Signed_Overflow \<and> decode 1 63 0 = Inl Undefined_Shift"
  by (simp add: decode_def)

subsection \<open>The argument check of main\<close>

text \<open>
  C5, as amended. When \<open>s\<close>, \<open>E\<close> or \<open>b\<close> is 0, \<open>main\<close> stops at its check of the required
  arguments, before the cache is built and whatever the trace is. (Negative values pass
  that check.)
\<close>

theorem main_rejects_zero:
  "s = 0 \<or> E = 0 \<or> b = 0 \<Longrightarrow> main s E b trace_file lns = Inl Missing_Argument"
  by (auto simp add: main_def)

theorem main_rejects_zero_witness:
  "((0::int) = 0 \<or> (1::int) = 0 \<or> (1::int) = 0) \<and>
   main 0 1 1 (Some ''t.trace'') [\<lparr>instruct = CHR ''L'', address = 0, size = 1\<rparr>]
     = Inl Missing_Argument"
  using main_rejects_zero [of 0 1 1] by simp

text \<open>
  C5 as stated fails for a negative value: with \<open>s = -1\<close> (and an empty trace) \<open>main\<close>
  builds a cache of \<open>(int) pow(2, -1) = 0\<close> sets, runs \<open>read_file\<close> and prints the summary.
\<close>

theorem main_negative_counterexample:
  "main (- 1) 1 1 (Some ''t.trace'') [] = Inr (0, 0, 0)"
  by (simp add: main_def pow2_int_def initial_def)

subsection \<open>A concrete run\<close>

text \<open>
  C9. With \<open>s = 0\<close>, \<open>b = 0\<close>, \<open>E = 1\<close>, on the cache of one set of one line, the trace
  \<open>L 0,1\<close>, \<open>L 4,1\<close> gives hits 0, misses 2, evictions 1: the second access replaces the
  tag of the only line.
\<close>

theorem single_line_cache_run:
  "read_file 0 0 1
     [\<lparr>instruct = CHR ''L'', address = 0, size = 1\<rparr>,
      \<lparr>instruct = CHR ''L'', address = 4, size = 1\<rparr>] (initial 1 1)
   = Inr \<lparr>cache = [[\<lparr>valid_bit = 1, lru = 2, tag = 4\<rparr>]], miss_count = 2, hit_count = 0,
          eviction_count = 1, global_timer = 2\<rparr>"
  by code_simp

subsection \<open>The loops of one access\<close>

lemma cache_set_line [simp]:
  "cache (set_line index i ln st) = (cache st)[index := (cache st ! index)[i := ln]]"
  and miss_count_set_line [simp]: "miss_count (set_line index i ln st) = miss_count st"
  and hit_count_set_line [simp]: "hit_count (set_line index i ln st) = hit_count st"
  and eviction_count_set_line [simp]:
    "eviction_count (set_line index i ln st) = eviction_count st"
  and global_timer_set_line [simp]: "global_timer (set_line index i ln st) = global_timer st"
  by (simp_all add: set_line_def)

lemma get_line_counters [simp]:
  "get_line (st\<lparr>miss_count := m\<rparr>) index i = get_line st index i"
  "get_line (st\<lparr>hit_count := h\<rparr>) index i = get_line st index i"
  "get_line (st\<lparr>eviction_count := e\<rparr>) index i = get_line st index i"
  "get_line (st\<lparr>global_timer := t\<rparr>) index i = get_line st index i"
  by (simp_all add: get_line_def)

lemma upt_split_at:
  assumes "i < n"
  shows "[0..<n] = [0..<i] @ i # [Suc i..<n]"
  using assms by (metis upt_conv_Cons upt_add_eq_append le_add_diff_inverse less_imp_le_nat zero_le)

lemma lookup_done: "fst p \<noteq> 0 \<Longrightarrow> fold (lookup_body tg index) js p = p"
  by (induction js) (simp_all add: lookup_body_def)

lemma lookup_no_match:
  "\<forall>i\<in>set js. tag (get_line (snd p) index i) \<noteq> tg \<Longrightarrow> fold (lookup_body tg index) js p = p"
  by (induction js) (auto simp add: lookup_body_def Let_def)

lemma lookup_first:
  assumes "i < n" and "tag (get_line st index i) = tg"
    and "\<forall>j<i. tag (get_line st index j) \<noteq> tg"
  shows "fold (lookup_body tg index) [0..<n] (0, st) = lookup_body tg index i (0, st)"
proof -
  have "fold (lookup_body tg index) [0..<i] (0, st) = (0, st)"
    using assms(3) by (intro lookup_no_match) simp
  moreover have "fst (lookup_body tg index i (0, st)) \<noteq> 0"
    using assms(2) by (simp add: lookup_body_def Let_def)
  ultimately show ?thesis
    by (simp add: upt_split_at [OF assms(1)] lookup_done)
qed

lemma fill_done: "fst p \<noteq> 0 \<Longrightarrow> fold (fill_body tg index) js p = p"
  by (induction js) (simp_all add: fill_body_def)

lemma fill_no_free:
  "\<forall>i\<in>set js. lru (get_line (snd p) index i) \<noteq> 0 \<Longrightarrow> fold (fill_body tg index) js p = p"
  by (induction js) (auto simp add: fill_body_def Let_def)

lemma fill_first:
  assumes "i < n" and "lru (get_line st index i) = 0"
    and "\<forall>j<i. lru (get_line st index j) \<noteq> 0"
  shows "fold (fill_body tg index) [0..<n] (0, st) = fill_body tg index i (0, st)"
proof -
  have "fold (fill_body tg index) [0..<i] (0, st) = (0, st)"
    using assms(3) by (intro fill_no_free) simp
  moreover have "fst (fill_body tg index i (0, st)) \<noteq> 0"
    using assms(2) by (simp add: fill_body_def Let_def)
  ultimately show ?thesis
    by (simp add: upt_split_at [OF assms(1)] fill_done)
qed

lemma modify_done: "fst p \<noteq> 0 \<Longrightarrow> fold (modify_body tg index) js p = p"
  by (induction js) (simp_all add: modify_body_def)

lemma modify_no_match:
  "\<forall>i\<in>set js. \<not> (tag (get_line (snd p) index i) = tg \<and> valid_bit (get_line (snd p) index i) = 1)
    \<Longrightarrow> fold (modify_body tg index) js p = p"
  by (induction js) (auto simp add: modify_body_def Let_def)

lemma modify_first:
  assumes "i < n" and "tag (get_line st index i) = tg" and "valid_bit (get_line st index i) = 1"
    and "\<forall>j<i. \<not> (tag (get_line st index j) = tg \<and> valid_bit (get_line st index j) = 1)"
  shows "fold (modify_body tg index) [0..<n] (0, st) = modify_body tg index i (0, st)"
proof -
  have "fold (modify_body tg index) [0..<i] (0, st) = (0, st)"
    using assms(4) by (intro modify_no_match) simp
  moreover have "fst (modify_body tg index i (0, st)) \<noteq> 0"
    using assms(2,3) by (simp add: modify_body_def Let_def)
  ultimately show ?thesis
    by (simp add: upt_split_at [OF assms(1)] modify_done)
qed

lemma min_fold:
  "let m = fold (min_body st index) [1..<Suc n] 0 in
     m < Suc n \<and> (\<forall>j<Suc n. lru (get_line st index m) \<le> lru (get_line st index j))
       \<and> (\<forall>j<m. lru (get_line st index m) < lru (get_line st index j))"
proof (induction n)
  case 0
  show ?case by simp
next
  case (Suc n)
  define m where "m = fold (min_body st index) [1..<Suc n] 0"
  have step: "fold (min_body st index) [1..<Suc (Suc n)] 0 = min_body st index (Suc n) m"
    by (simp add: m_def)
  from Suc have m: "m < Suc n" "\<forall>j<Suc n. lru (get_line st index m) \<le> lru (get_line st index j)"
    "\<forall>j<m. lru (get_line st index m) < lru (get_line st index j)"
    unfolding m_def Let_def by blast+
  show ?case
  proof (cases "lru (get_line st index (Suc n)) < lru (get_line st index m)")
    case True
    then have "min_body st index (Suc n) m = Suc n" by (simp add: min_body_def)
    moreover have "\<forall>j<Suc (Suc n). lru (get_line st index (Suc n)) \<le> lru (get_line st index j)"
      using True m(2) by (auto simp: less_Suc_eq)
    moreover have "\<forall>j<Suc n. lru (get_line st index (Suc n)) < lru (get_line st index j)"
      using True m(2) by (meson less_le_trans)
    ultimately show ?thesis unfolding step Let_def by simp
  next
    case False
    then have "min_body st index (Suc n) m = m" by (simp add: min_body_def)
    moreover have "\<forall>j<Suc (Suc n). lru (get_line st index m) \<le> lru (get_line st index j)"
      using False m(2) by (auto simp: less_Suc_eq)
    ultimately show ?thesis unfolding step Let_def using m by simp
  qed
qed

lemma find_min_index_least:
  assumes "1 \<le> E"
  shows "find_min_index E index st < nat E"
    and "\<forall>j<nat E. lru (get_line st index (find_min_index E index st)) \<le> lru (get_line st index j)"
    and "\<forall>j<find_min_index E index st.
           lru (get_line st index (find_min_index E index st)) < lru (get_line st index j)"
proof -
  from assms obtain n where n: "nat E = Suc n"
    by (metis Suc_pred' zero_less_nat_eq zero_less_one less_le_trans)
  show "find_min_index E index st < nat E"
    and "\<forall>j<nat E. lru (get_line st index (find_min_index E index st)) \<le> lru (get_line st index j)"
    and "\<forall>j<find_min_index E index st.
           lru (get_line st index (find_min_index E index st)) < lru (get_line st index j)"
    using min_fold [of st index n] unfolding find_min_index_def n Let_def by blast+
qed

lemma find_min_index_miss_count [simp]:
  "find_min_index E index (st\<lparr>miss_count := m\<rparr>) = find_min_index E index st"
proof -
  have "min_body (st\<lparr>miss_count := m\<rparr>) index = min_body st index"
    by (intro ext) (simp add: min_body_def)
  then show ?thesis by (simp add: find_min_index_def)
qed

text \<open>The four outcomes of the first pass.\<close>

lemma lookup_fill_evict_cases:
  assumes "1 \<le> E"
  obtains
    (hit) i where "i < nat E" and "tag (get_line st index i) = tg"
      and "valid_bit (get_line st index i) = 1"
      and "\<forall>j<i. tag (get_line st index j) \<noteq> tg"
      and "lookup_fill_evict E tg index st
             = set_line index i ((get_line st index i)\<lparr>lru := global_timer st\<rparr>)
                 (st\<lparr>hit_count := hit_count st + 1\<rparr>)"
  | (revalidate) i where "i < nat E" and "tag (get_line st index i) = tg"
      and "valid_bit (get_line st index i) \<noteq> 1"
      and "\<forall>j<i. tag (get_line st index j) \<noteq> tg"
      and "lookup_fill_evict E tg index st
             = set_line index i ((get_line st index i)\<lparr>valid_bit := 1, lru := global_timer st\<rparr>)
                 (st\<lparr>miss_count := miss_count st + 1\<rparr>)"
  | (fill) i where "\<forall>j<nat E. tag (get_line st index j) \<noteq> tg"
      and "i < nat E" and "lru (get_line st index i) = 0"
      and "\<forall>j<i. lru (get_line st index j) \<noteq> 0"
      and "lookup_fill_evict E tg index st
             = set_line index i
                 ((get_line st index i)\<lparr>tag := tg, valid_bit := 1, lru := global_timer st\<rparr>)
                 (st\<lparr>miss_count := miss_count st + 1\<rparr>)"
  | (evict) v where "\<forall>j<nat E. tag (get_line st index j) \<noteq> tg"
      and "\<forall>j<nat E. lru (get_line st index j) \<noteq> 0"
      and "v < nat E"
      and "\<forall>j<nat E. lru (get_line st index v) \<le> lru (get_line st index j)"
      and "\<forall>j<v. lru (get_line st index v) < lru (get_line st index j)"
      and "lookup_fill_evict E tg index st
             = set_line index v
                 ((get_line st index v)\<lparr>tag := tg, valid_bit := 1, lru := global_timer st\<rparr>)
                 (st\<lparr>miss_count := miss_count st + 1,
                     eviction_count := eviction_count st + 1\<rparr>)"
proof (cases "\<exists>i<nat E. tag (get_line st index i) = tg")
  case True
  then obtain i where i: "i < nat E" "tag (get_line st index i) = tg"
    "\<forall>j<i. tag (get_line st index j) \<noteq> tg"
    using exists_least_iff [of "\<lambda>i. i < nat E \<and> tag (get_line st index i) = tg"]
    by (metis (no_types, lifting) less_trans)
  have p1: "fold (lookup_body tg index) [0..<nat E] (0, st) = lookup_body tg index i (0, st)"
    using i by (rule lookup_first)
  show ?thesis
  proof (cases "valid_bit (get_line st index i) = 1")
    case True
    with i p1 have "lookup_fill_evict E tg index st
             = set_line index i ((get_line st index i)\<lparr>lru := global_timer st\<rparr>)
                 (st\<lparr>hit_count := hit_count st + 1\<rparr>)"
      by (simp add: lookup_fill_evict_def lookup_body_def Let_def)
    with i(1,2) True i(3) show ?thesis by (rule hit)
  next
    case False
    with i p1 have "lookup_fill_evict E tg index st
             = set_line index i ((get_line st index i)\<lparr>valid_bit := 1, lru := global_timer st\<rparr>)
                 (st\<lparr>miss_count := miss_count st + 1\<rparr>)"
      by (simp add: lookup_fill_evict_def lookup_body_def Let_def)
    with i(1,2) False i(3) show ?thesis by (rule revalidate)
  qed
next
  case False
  then have nomatch: "\<forall>j<nat E. tag (get_line st index j) \<noteq> tg" by blast
  then have p1: "fold (lookup_body tg index) [0..<nat E] (0, st) = (0, st)"
    by (intro lookup_no_match) simp
  show ?thesis
  proof (cases "\<exists>i<nat E. lru (get_line st index i) = 0")
    case True
    then obtain i where i: "i < nat E" "lru (get_line st index i) = 0"
      "\<forall>j<i. lru (get_line st index j) \<noteq> 0"
      using exists_least_iff [of "\<lambda>i. i < nat E \<and> lru (get_line st index i) = 0"]
      by (metis (no_types, lifting) less_trans)
    have p2: "fold (fill_body tg index) [0..<nat E] (0, st) = fill_body tg index i (0, st)"
      using i by (rule fill_first)
    from i p1 p2 have "lookup_fill_evict E tg index st
             = set_line index i
                 ((get_line st index i)\<lparr>tag := tg, valid_bit := 1, lru := global_timer st\<rparr>)
                 (st\<lparr>miss_count := miss_count st + 1\<rparr>)"
      by (simp add: lookup_fill_evict_def fill_body_def Let_def)
    with nomatch i show ?thesis by (rule fill)
  next
    case False
    then have nofree: "\<forall>j<nat E. lru (get_line st index j) \<noteq> 0" by blast
    then have p2: "fold (fill_body tg index) [0..<nat E] (0, st) = (0, st)"
      by (intro fill_no_free) simp
    define v where "v = find_min_index E index st"
    have v: "v < nat E" "\<forall>j<nat E. lru (get_line st index v) \<le> lru (get_line st index j)"
      "\<forall>j<v. lru (get_line st index v) < lru (get_line st index j)"
      unfolding v_def using assms by (rule find_min_index_least)+
    from p1 p2 have "lookup_fill_evict E tg index st
             = set_line index v
                 ((get_line st index v)\<lparr>tag := tg, valid_bit := 1, lru := global_timer st\<rparr>)
                 (st\<lparr>miss_count := miss_count st + 1,
                     eviction_count := eviction_count st + 1\<rparr>)"
      by (simp add: lookup_fill_evict_def evict_def Let_def v_def)
    with nomatch nofree v show ?thesis by (rule evict)
  qed
qed

lemma global_timer_lookup_fold:
  "global_timer (snd (fold (lookup_body tg index) js p)) = global_timer (snd p)"
  by (induction js arbitrary: p) (simp_all add: lookup_body_def Let_def)

lemma global_timer_fill_fold:
  "global_timer (snd (fold (fill_body tg index) js p)) = global_timer (snd p)"
  by (induction js arbitrary: p) (simp_all add: fill_body_def Let_def)

lemma global_timer_modify_fold:
  "global_timer (snd (fold (modify_body tg index) js p)) = global_timer (snd p)"
  by (induction js arbitrary: p) (simp_all add: modify_body_def Let_def)

lemma global_timer_lookup_fill_evict [simp]:
  "global_timer (lookup_fill_evict E tg index st) = global_timer st"
  by (simp add: lookup_fill_evict_def Let_def evict_def global_timer_lookup_fold
      global_timer_fill_fold)

lemma global_timer_modify_lookup [simp]:
  "global_timer (snd (modify_lookup E tg index st)) = global_timer st"
  by (simp add: modify_lookup_def global_timer_modify_fold)

lemma process_line_timer:
  assumes "process_line s b E ln st = Inr st'"
  shows "global_timer st' = global_timer st + 1"
  using assms
  by (auto simp add: process_line_def Let_def split: sum.splits prod.splits if_splits)

text \<open>The second lookup of an \<open>M\<close> line, after a first pass that left the tag in slot \<open>i\<close>.\<close>

lemma get_line_set_line_same:
  assumes "index < length (cache st)" and "i < length (cache st ! index)"
  shows "get_line (set_line index i ln st) index i = ln"
  using assms by (simp add: get_line_def)

lemma get_line_set_line_other:
  assumes "j \<noteq> i"
  shows "get_line (set_line index i ln st) index j = get_line st index j"
proof (cases "index < length (cache st)")
  case True
  with assms show ?thesis by (simp add: get_line_def)
next
  case False
  then show ?thesis by (simp add: get_line_def list_update_beyond)
qed

lemma modify_lookup_after:
  assumes "i < nat E" and "index < length (cache st)" and "i < length (cache st ! index)"
    and "tag ln = tg" and "valid_bit ln = 1" and "lru ln = global_timer st"
    and "\<forall>j<i. tag (get_line st index j) \<noteq> tg"
  shows "modify_lookup E tg index (set_line index i ln st)
           = (1, (set_line index i ln st)\<lparr>hit_count := hit_count st + 1\<rparr>)"
proof -
  let ?st = "set_line index i ln st"
  have here: "get_line ?st index i = ln"
    using assms(2,3) by (rule get_line_set_line_same)
  have before: "\<forall>j<i. \<not> (tag (get_line ?st index j) = tg \<and> valid_bit (get_line ?st index j) = 1)"
    using assms(7) by (simp add: get_line_set_line_other)
  have "modify_lookup E tg index ?st = modify_body tg index i (0, ?st)"
    unfolding modify_lookup_def using assms(1) here assms(4,5) before
    by (intro modify_first) simp_all
  also have "\<dots> = (1, set_line index i (ln\<lparr>lru := global_timer st\<rparr>) (?st\<lparr>hit_count := hit_count st + 1\<rparr>))"
    using here assms(4,5) by (simp add: modify_body_def Let_def)
  also have "ln\<lparr>lru := global_timer st\<rparr> = ln"
    using assms(6) by simp
  also have "set_line index i ln (?st\<lparr>hit_count := hit_count st + 1\<rparr>) = ?st\<lparr>hit_count := hit_count st + 1\<rparr>"
    using assms(2) by (simp add: set_line_def)
  finally show ?thesis .
qed

lemma modify_lookup_after_first_pass:
  assumes "1 \<le> E" and "in_bounds E index st"
  shows "modify_lookup E tg index (lookup_fill_evict E tg index st)
           = (1, (lookup_fill_evict E tg index st)
                   \<lparr>hit_count := hit_count (lookup_fill_evict E tg index st) + 1\<rparr>)"
proof -
  from assms have idx: "index < length (cache st)" and len: "nat E \<le> length (cache st ! index)"
    by (simp_all add: in_bounds_def nat_le_iff)
  from assms(1) show ?thesis
  proof (cases rule: lookup_fill_evict_cases [where st = st and index = index and tg = tg])
    case (hit i)
    let ?st = "st\<lparr>hit_count := hit_count st + 1\<rparr>"
    have "modify_lookup E tg index (set_line index i ((get_line st index i)\<lparr>lru := global_timer st\<rparr>) ?st)
        = (1, (set_line index i ((get_line st index i)\<lparr>lru := global_timer st\<rparr>) ?st)\<lparr>hit_count := hit_count ?st + 1\<rparr>)"
      using hit(1-4) idx len by (intro modify_lookup_after) simp_all
    then show ?thesis by (simp add: hit(5))
  next
    case (revalidate i)
    let ?st = "st\<lparr>miss_count := miss_count st + 1\<rparr>"
    have "modify_lookup E tg index (set_line index i ((get_line st index i)\<lparr>valid_bit := 1, lru := global_timer st\<rparr>) ?st)
        = (1, (set_line index i ((get_line st index i)\<lparr>valid_bit := 1, lru := global_timer st\<rparr>) ?st)\<lparr>hit_count := hit_count ?st + 1\<rparr>)"
      using revalidate(1-4) idx len by (intro modify_lookup_after) simp_all
    then show ?thesis by (simp add: revalidate(5))
  next
    case (fill i)
    let ?st = "st\<lparr>miss_count := miss_count st + 1\<rparr>"
    have "modify_lookup E tg index (set_line index i ((get_line st index i)\<lparr>tag := tg, valid_bit := 1, lru := global_timer st\<rparr>) ?st)
        = (1, (set_line index i ((get_line st index i)\<lparr>tag := tg, valid_bit := 1, lru := global_timer st\<rparr>) ?st)\<lparr>hit_count := hit_count ?st + 1\<rparr>)"
      using fill(1-4) idx len by (intro modify_lookup_after) simp_all
    then show ?thesis by (simp add: fill(5))
  next
    case (evict v)
    let ?st = "st\<lparr>miss_count := miss_count st + 1, eviction_count := eviction_count st + 1\<rparr>"
    have "modify_lookup E tg index (set_line index v ((get_line st index v)\<lparr>tag := tg, valid_bit := 1, lru := global_timer st\<rparr>) ?st)
        = (1, (set_line index v ((get_line st index v)\<lparr>tag := tg, valid_bit := 1, lru := global_timer st\<rparr>) ?st)\<lparr>hit_count := hit_count ?st + 1\<rparr>)"
      using evict(1-5) idx len by (intro modify_lookup_after) simp_all
    then show ?thesis by (simp add: evict(6))
  qed
qed

subsection \<open>The shape of the sets is maintained\<close>

lemma set_ok_install:
  assumes ok: "set_ok cs" and i: "i < length cs" and valid: "valid_bit ln = 1"
    and others: "\<forall>j<length cs. j \<noteq> i \<longrightarrow> valid_bit (cs ! j) = 1 \<longrightarrow> tag (cs ! j) \<noteq> tag ln"
    and before: "\<forall>j<i. valid_bit (cs ! j) = 1"
  shows "set_ok (cs[i := ln])"
proof -
  let ?cs = "cs[i := ln]"
  have at_i: "?cs ! i = ln" using i by simp
  have off_i: "\<And>k. k \<noteq> i \<Longrightarrow> ?cs ! k = cs ! k" by simp
  from ok have untouched: "\<And>k. k < length cs \<Longrightarrow> valid_bit (cs ! k) \<noteq> 1 \<Longrightarrow> cs ! k = zero_line"
    and prefix: "\<And>k j. k < length cs \<Longrightarrow> j < k \<Longrightarrow> valid_bit (cs ! k) = 1 \<Longrightarrow> valid_bit (cs ! j) = 1"
    and distinct: "\<And>k j. k < length cs \<Longrightarrow> j < length cs \<Longrightarrow> valid_bit (cs ! k) = 1
        \<Longrightarrow> valid_bit (cs ! j) = 1 \<Longrightarrow> tag (cs ! k) = tag (cs ! j) \<Longrightarrow> k = j"
    unfolding set_ok_def by blast+
  have 1: "?cs ! k = zero_line" if "k < length ?cs" "valid_bit (?cs ! k) \<noteq> 1" for k
  proof (cases "k = i")
    case True
    with that at_i valid show ?thesis by simp
  next
    case False
    with that untouched [of k] show ?thesis by simp
  qed
  have 2: "valid_bit (?cs ! j) = 1" if "k < length ?cs" "j < k" "valid_bit (?cs ! k) = 1" for k j
  proof (cases "j = i")
    case True
    with at_i valid show ?thesis by simp
  next
    case ji: False
    show ?thesis
    proof (cases "k = i")
      case True
      with that ji before show ?thesis by simp
    next
      case False
      with that ji prefix [of k j] show ?thesis by simp
    qed
  qed
  have 3: "k = j" if "k < length ?cs" "j < length ?cs" "valid_bit (?cs ! k) = 1"
    "valid_bit (?cs ! j) = 1" "tag (?cs ! k) = tag (?cs ! j)" for k j
  proof (cases "k = i")
    case ki: True
    show ?thesis
    proof (cases "j = i")
      case True
      with ki show ?thesis by simp
    next
      case False
      with that ki at_i others show ?thesis by (metis length_list_update off_i)
    qed
  next
    case ki: False
    show ?thesis
    proof (cases "j = i")
      case True
      with that ki at_i others show ?thesis by (metis length_list_update off_i)
    next
      case False
      with that ki distinct [of k j] show ?thesis by simp
    qed
  qed
  show ?thesis
    unfolding set_ok_def using 1 2 3 by blast
qed

lemma set_ok_invalid:
  assumes "set_ok cs" and "k < length cs" and "valid_bit (cs ! k) \<noteq> 1"
  shows "tag (cs ! k) = 0" and "lru (cs ! k) = 0" and "valid_bit (cs ! k) = 0"
proof -
  from assms have "cs ! k = zero_line" unfolding set_ok_def by blast
  then show "tag (cs ! k) = 0" and "lru (cs ! k) = 0" and "valid_bit (cs ! k) = 0"
    by (simp_all add: zero_line_def)
qed

lemma set_ok_prefix:
  assumes "set_ok cs" and "k < length cs" and "j < k" and "valid_bit (cs ! k) = 1"
  shows "valid_bit (cs ! j) = 1"
  using assms unfolding set_ok_def by blast

lemma set_ok_distinct:
  assumes "set_ok cs" and "k < length cs" and "j < length cs" and "valid_bit (cs ! k) = 1"
    and "valid_bit (cs ! j) = 1" and "tag (cs ! k) = tag (cs ! j)"
  shows "k = j"
  using assms unfolding set_ok_def by blast

lemma cache_ok_nth:
  assumes "cache_ok E st" and "index < length (cache st)"
  shows "length (cache st ! index) = nat E" and "set_ok (cache st ! index)"
  using assms unfolding cache_ok_def by simp_all

lemma first_pass_installs:
  assumes E: "1 \<le> E" and ok: "cache_ok E st" and idx: "index < length (cache st)"
  obtains i ln where "i < nat E" and "valid_bit ln = 1" and "tag ln = tg"
    and "lru ln = global_timer st"
    and "cache (lookup_fill_evict E tg index st)
           = (cache st)[index := (cache st ! index)[i := ln]]"
    and "\<forall>j<nat E. j \<noteq> i \<longrightarrow> valid_bit (cache st ! index ! j) = 1
           \<longrightarrow> tag (cache st ! index ! j) \<noteq> tg"
    and "\<forall>j<i. valid_bit (cache st ! index ! j) = 1"
proof -
  let ?cs = "cache st ! index"
  note len = cache_ok_nth(1) [OF ok idx] and sok = cache_ok_nth(2) [OF ok idx]
  from E show ?thesis
  proof (cases rule: lookup_fill_evict_cases [where st = st and index = index and tg = tg])
    case (hit i)
    let ?ln = "(get_line st index i)\<lparr>lru := global_timer st\<rparr>"
    from hit have i: "i < length ?cs" "tag (?cs ! i) = tg" "valid_bit (?cs ! i) = 1"
      by (simp_all add: len get_line_def)
    have "\<forall>j<nat E. j \<noteq> i \<longrightarrow> valid_bit (?cs ! j) = 1 \<longrightarrow> tag (?cs ! j) \<noteq> tg"
      using set_ok_distinct [OF sok, of _ i] i len by metis
    moreover have "\<forall>j<i. valid_bit (?cs ! j) = 1"
      using set_ok_prefix [OF sok i(1) _ i(3)] by blast
    moreover have "cache (lookup_fill_evict E tg index st) = (cache st)[index := ?cs[i := ?ln]]"
      by (simp add: hit(5))
    ultimately show ?thesis
      using hit(1-3) by (intro that [of i ?ln]) simp_all
  next
    case (revalidate i)
    let ?ln = "(get_line st index i)\<lparr>valid_bit := 1, lru := global_timer st\<rparr>"
    from revalidate have i: "i < length ?cs" "tag (?cs ! i) = tg" "valid_bit (?cs ! i) \<noteq> 1"
      and bef: "\<forall>j<i. tag (?cs ! j) \<noteq> tg"
      by (simp_all add: len get_line_def)
    have tg0: "tg = 0"
      using set_ok_invalid(1) [OF sok i(1) i(3)] i(2) by simp
    have before: "\<forall>j<i. valid_bit (?cs ! j) = 1"
    proof (intro allI impI)
      fix j assume "j < i"
      with bef i(1) tg0 set_ok_invalid(1) [OF sok, of j]
      show "valid_bit (?cs ! j) = 1" by fastforce
    qed
    have "\<forall>j<nat E. j \<noteq> i \<longrightarrow> valid_bit (?cs ! j) = 1 \<longrightarrow> tag (?cs ! j) \<noteq> tg"
    proof (intro allI impI)
      fix j assume j: "j < nat E" "j \<noteq> i" "valid_bit (?cs ! j) = 1"
      show "tag (?cs ! j) \<noteq> tg"
      proof (cases "j < i")
        case True
        with bef show ?thesis by simp
      next
        case False
        with j have "i < j" by simp
        with set_ok_prefix [OF sok _ this j(3)] j(1) len i(3) show ?thesis by simp
      qed
    qed
    moreover have "cache (lookup_fill_evict E tg index st) = (cache st)[index := ?cs[i := ?ln]]"
      by (simp add: revalidate(5))
    ultimately show ?thesis
      using revalidate(1-2) before by (intro that [of i ?ln]) simp_all
  next
    case (fill i)
    let ?ln = "(get_line st index i)\<lparr>tag := tg, valid_bit := 1, lru := global_timer st\<rparr>"
    have before: "\<forall>j<i. valid_bit (?cs ! j) = 1"
    proof (intro allI impI)
      fix j assume "j < i"
      with fill(2,4) len set_ok_invalid(2) [OF sok, of j]
      show "valid_bit (?cs ! j) = 1" by (fastforce simp add: get_line_def)
    qed
    moreover have "\<forall>j<nat E. j \<noteq> i \<longrightarrow> valid_bit (?cs ! j) = 1 \<longrightarrow> tag (?cs ! j) \<noteq> tg"
      using fill(1) by (simp add: get_line_def)
    moreover have "cache (lookup_fill_evict E tg index st) = (cache st)[index := ?cs[i := ?ln]]"
      by (simp add: fill(5))
    ultimately show ?thesis
      using fill(2) by (intro that [of i ?ln]) simp_all
  next
    case (evict v)
    let ?ln = "(get_line st index v)\<lparr>tag := tg, valid_bit := 1, lru := global_timer st\<rparr>"
    have before: "\<forall>j<v. valid_bit (?cs ! j) = 1"
    proof (intro allI impI)
      fix j assume "j < v"
      with evict(2,3) len set_ok_invalid(2) [OF sok, of j]
      show "valid_bit (?cs ! j) = 1" by (fastforce simp add: get_line_def)
    qed
    moreover have "\<forall>j<nat E. j \<noteq> v \<longrightarrow> valid_bit (?cs ! j) = 1 \<longrightarrow> tag (?cs ! j) \<noteq> tg"
      using evict(1) by (simp add: get_line_def)
    moreover have "cache (lookup_fill_evict E tg index st) = (cache st)[index := ?cs[v := ?ln]]"
      by (simp add: evict(6))
    ultimately show ?thesis
      using evict(3) by (intro that [of v ?ln]) simp_all
  qed
qed

lemma first_pass_counters:
  assumes "1 \<le> E"
  shows "(hit_count (lookup_fill_evict E tg index st) = hit_count st + 1
          \<and> miss_count (lookup_fill_evict E tg index st) = miss_count st
          \<and> eviction_count (lookup_fill_evict E tg index st) = eviction_count st)
       \<or> (hit_count (lookup_fill_evict E tg index st) = hit_count st
          \<and> miss_count (lookup_fill_evict E tg index st) = miss_count st + 1
          \<and> (eviction_count (lookup_fill_evict E tg index st) = eviction_count st
             \<or> eviction_count (lookup_fill_evict E tg index st) = eviction_count st + 1))"
  using assms
  by (cases rule: lookup_fill_evict_cases [where st = st and index = index and tg = tg])
    simp_all

subsection \<open>One line of the trace\<close>

lemma cache_ok_timer [simp]: "cache_ok E (st\<lparr>global_timer := t\<rparr>) = cache_ok E st"
  and cache_ok_hit_count [simp]: "cache_ok E (st\<lparr>hit_count := h\<rparr>) = cache_ok E st"
  by (simp_all add: cache_ok_def)

lemma in_bounds_timer [simp]: "in_bounds E index (st\<lparr>global_timer := t\<rparr>) = in_bounds E index st"
  by (simp add: in_bounds_def)

lemma in_bounds_positive:
  assumes "cache_ok E st" and "in_bounds E index st"
  shows "1 \<le> E"
proof -
  from assms(2) have idx: "index < length (cache st)"
    and len: "max E 1 \<le> int (length (cache st ! index))"
    by (simp_all add: in_bounds_def)
  from cache_ok_nth(1) [OF assms(1) idx] len show ?thesis
    by (cases "0 \<le> E") simp_all
qed

lemma in_bounds_cache_ok:
  assumes "cache_ok E st" and "index < length (cache st)" and "1 \<le> E"
  shows "in_bounds E index st"
  using assms cache_ok_nth(1) [OF assms(1,2)] by (simp add: in_bounds_def)

lemma process_line_skip:
  assumes "\<not> is_data_access (instruct ln)" and "decode s b (address ln) = Inr (tg, index)"
  shows "process_line s b E ln st = Inr (st\<lparr>global_timer := global_timer st + 1\<rparr>)"
  using assms by (simp add: process_line_def)

lemma process_line_access:
  assumes "is_data_access (instruct ln)" and "decode s b (address ln) = Inr (tg, index)"
    and "in_bounds E (unat index) st" and "1 \<le> E"
    and "st2 = lookup_fill_evict E tg (unat index) (st\<lparr>global_timer := global_timer st + 1\<rparr>)"
    and "st3 = (if instruct ln = CHR ''M'' then st2\<lparr>hit_count := hit_count st2 + 1\<rparr> else st2)"
  shows "process_line s b E ln st = (if overflowed st3 then Inl Signed_Overflow else Inr st3)"
proof -
  have "snd (modify_lookup E tg (unat index) st2) = st2\<lparr>hit_count := hit_count st2 + 1\<rparr>"
    unfolding assms(5) using assms(3,4) by (simp add: modify_lookup_after_first_pass)
  with assms show ?thesis
    by (simp add: process_line_def Let_def)
qed

lemma process_line_cases:
  assumes "process_line s b E ln st = Inr st'" and "cache_ok E st"
  obtains
    (skip) "\<not> is_data_access (instruct ln)"
      and "st' = st\<lparr>global_timer := global_timer st + 1\<rparr>"
  | (access) tg index st2 where "is_data_access (instruct ln)"
      and "decode s b (address ln) = Inr (tg, index)"
      and "unat index < length (cache st)" and "1 \<le> E"
      and "st2 = lookup_fill_evict E tg (unat index) (st\<lparr>global_timer := global_timer st + 1\<rparr>)"
      and "st' = (if instruct ln = CHR ''M'' then st2\<lparr>hit_count := hit_count st2 + 1\<rparr> else st2)"
      and "\<not> overflowed st'"
proof -
  from assms(1) obtain tg index where dec: "decode s b (address ln) = Inr (tg, index)"
    by (auto simp add: process_line_def split: sum.splits)
  show ?thesis
  proof (cases "is_data_access (instruct ln)")
    case False
    with assms(1) dec have "st' = st\<lparr>global_timer := global_timer st + 1\<rparr>"
      by (simp add: process_line_skip)
    with False show ?thesis by (rule skip)
  next
    case True
    with assms(1) dec have bounds: "in_bounds E (unat index) st"
      by (auto simp add: process_line_def Let_def split: if_splits)
    then have idx: "unat index < length (cache st)" by (simp add: in_bounds_def)
    from assms(2) bounds have E: "1 \<le> E" by (rule in_bounds_positive)
    define st2 where "st2 = lookup_fill_evict E tg (unat index) (st\<lparr>global_timer := global_timer st + 1\<rparr>)"
    define st3 where "st3 = (if instruct ln = CHR ''M'' then st2\<lparr>hit_count := hit_count st2 + 1\<rparr> else st2)"
    from process_line_access [OF True dec bounds E st2_def st3_def] assms(1)
    have "st' = st3" and "\<not> overflowed st'" by (auto split: if_splits)
    with True dec idx E st2_def show ?thesis unfolding st3_def by (intro access)
  qed
qed

lemma cache_ok_update:
  assumes "cache_ok E st" and "set_ok new" and "length new = nat E"
    and "cache st' = (cache st)[index := new]"
  shows "cache_ok E st'"
  unfolding cache_ok_def
proof (intro ballI)
  fix cs assume "cs \<in> set (cache st')"
  with assms(4) set_update_subset_insert [of "cache st" index new]
  have "cs = new \<or> cs \<in> set (cache st)" by auto
  with assms(1-3) show "length cs = nat E \<and> set_ok cs"
    unfolding cache_ok_def by blast
qed

lemma first_pass_cache_ok:
  assumes E: "1 \<le> E" and ok: "cache_ok E st" and idx: "index < length (cache st)"
  shows "cache_ok E (lookup_fill_evict E tg index st)"
    and "length (cache (lookup_fill_evict E tg index st)) = length (cache st)"
proof -
  note len = cache_ok_nth(1) [OF ok idx] and sok = cache_ok_nth(2) [OF ok idx]
  from E ok idx obtain i ln where i: "i < nat E" and ln: "valid_bit ln = 1" "tag ln = tg"
    and c: "cache (lookup_fill_evict E tg index st)
              = (cache st)[index := (cache st ! index)[i := ln]]"
    and oth: "\<forall>j<nat E. j \<noteq> i \<longrightarrow> valid_bit (cache st ! index ! j) = 1
           \<longrightarrow> tag (cache st ! index ! j) \<noteq> tg"
    and bef: "\<forall>j<i. valid_bit (cache st ! index ! j) = 1"
    by (rule first_pass_installs [where tg = tg])
  have "set_ok ((cache st ! index)[i := ln])"
  proof (rule set_ok_install [OF sok])
    show "i < length (cache st ! index)" using i len by simp
    show "valid_bit ln = 1" by (rule ln)
    show "\<forall>j<length (cache st ! index). j \<noteq> i \<longrightarrow> valid_bit (cache st ! index ! j) = 1
           \<longrightarrow> tag (cache st ! index ! j) \<noteq> tag ln"
      using oth ln len by simp
    show "\<forall>j<i. valid_bit (cache st ! index ! j) = 1" by (rule bef)
  qed
  moreover have "length ((cache st ! index)[i := ln]) = nat E" using len by simp
  ultimately show "cache_ok E (lookup_fill_evict E tg index st)"
    using c by (rule cache_ok_update [OF ok])
  show "length (cache (lookup_fill_evict E tg index st)) = length (cache st)"
    by (simp add: c)
qed

lemma process_line_cache_ok:
  assumes "process_line s b E ln st = Inr st'" and "cache_ok E st"
  shows "cache_ok E st'" and "length (cache st') = length (cache st)"
proof -
  from assms have "cache_ok E st' \<and> length (cache st') = length (cache st)"
  proof (cases rule: process_line_cases)
    case skip
    with assms(2) show ?thesis by simp
  next
    case (access tg index st2)
    let ?st1 = "st\<lparr>global_timer := global_timer st + 1\<rparr>"
    have "cache_ok E ?st1" "unat index < length (cache ?st1)"
      using assms(2) access(3) by simp_all
    from first_pass_cache_ok [OF access(4) this, of tg] access(5,6)
    show ?thesis by simp
  qed
  then show "cache_ok E st'" and "length (cache st') = length (cache st)" by simp_all
qed

lemma read_file_append:
  "read_file s b E (xs @ ys) st
     = (case read_file s b E xs st of Inl e \<Rightarrow> Inl e | Inr st' \<Rightarrow> read_file s b E ys st')"
  by (induction xs arbitrary: st) (simp_all split: sum.splits)

lemma read_file_snoc:
  "read_file s b E (xs @ [ln]) st
     = (case read_file s b E xs st of Inl e \<Rightarrow> Inl e | Inr st' \<Rightarrow> process_line s b E ln st')"
  by (simp add: read_file_append split: sum.splits)

lemma read_file_cache_ok:
  assumes "read_file s b E lns st = Inr st'" and "cache_ok E st"
  shows "cache_ok E st'" and "length (cache st') = length (cache st)"
proof -
  from assms have "cache_ok E st' \<and> length (cache st') = length (cache st)"
  proof (induction lns arbitrary: st)
    case Nil
    then show ?case by simp
  next
    case (Cons ln lns)
    from Cons.prems(1) obtain st1 where st1: "process_line s b E ln st = Inr st1"
      and rest: "read_file s b E lns st1 = Inr st'"
      by (auto split: sum.splits)
    from process_line_cache_ok [OF st1 Cons.prems(2)] Cons.IH [OF rest]
    show ?case by simp
  qed
  then show "cache_ok E st'" and "length (cache st') = length (cache st)" by simp_all
qed

lemma set_ok_zero: "set_ok (replicate n zero_line)"
  by (simp add: set_ok_def zero_line_def)

lemma cache_ok_initial: "cache_ok E (initial S E)"
  by (simp add: cache_ok_def initial_def init_cache_def set_ok_zero)

lemma length_cache_initial: "length (cache (initial S E)) = nat S"
  by (simp add: initial_def init_cache_def)

lemma reachable_cache_ok:
  assumes "read_file s b E lns (initial S E) = Inr st"
  shows "cache_ok E st" and "length (cache st) = nat S"
  using read_file_cache_ok [OF assms cache_ok_initial] by (simp_all add: length_cache_initial)

lemma read_file_prefix:
  assumes "read_file s b E (xs @ ys) st = Inr st'"
  obtains st1 where "read_file s b E xs st = Inr st1" and "read_file s b E ys st1 = Inr st'"
  using assms by (auto simp add: read_file_append split: sum.splits)

subsection \<open>The counters\<close>

lemma process_line_counters:
  assumes "process_line s b E ln st = Inr st'" and "cache_ok E st"
  shows "hit_count st' + miss_count st' = hit_count st + miss_count st
           + (if instruct ln = CHR ''M'' then 2 else if is_data_access (instruct ln) then 1 else 0)"
    and "miss_count st \<le> miss_count st'" and "miss_count st' \<le> miss_count st + 1"
    and "hit_count st \<le> hit_count st'" and "hit_count st' \<le> hit_count st + 2"
    and "eviction_count st \<le> eviction_count st'"
    and "eviction_count st' - eviction_count st \<le> miss_count st' - miss_count st"
    and "instruct ln = CHR ''M'' \<Longrightarrow>
           (hit_count st' = hit_count st + 2 \<and> miss_count st' = miss_count st)
         \<or> (hit_count st' = hit_count st + 1 \<and> miss_count st' = miss_count st + 1)"
    and "is_data_access (instruct ln) \<Longrightarrow> instruct ln \<noteq> CHR ''M'' \<Longrightarrow>
           (hit_count st' = hit_count st + 1 \<and> miss_count st' = miss_count st)
         \<or> (hit_count st' = hit_count st \<and> miss_count st' = miss_count st + 1)"
proof -
  from assms have
    "(\<not> is_data_access (instruct ln) \<and> hit_count st' = hit_count st
        \<and> miss_count st' = miss_count st \<and> eviction_count st' = eviction_count st)
     \<or> (is_data_access (instruct ln)
        \<and> hit_count st' = hit_count st + 1 + (if instruct ln = CHR ''M'' then 1 else 0)
        \<and> miss_count st' = miss_count st \<and> eviction_count st' = eviction_count st)
     \<or> (is_data_access (instruct ln)
        \<and> hit_count st' = hit_count st + (if instruct ln = CHR ''M'' then 1 else 0)
        \<and> miss_count st' = miss_count st + 1
        \<and> (eviction_count st' = eviction_count st \<or> eviction_count st' = eviction_count st + 1))"
  proof (cases rule: process_line_cases)
    case skip
    then show ?thesis by simp
  next
    case (access tg index st2)
    from first_pass_counters [OF access(4), of tg "unat index" "st\<lparr>global_timer := global_timer st + 1\<rparr>"]
    show ?thesis unfolding access(6) access(5) using access(1) by auto
  qed
  moreover have "instruct ln = CHR ''M'' \<Longrightarrow> is_data_access (instruct ln)"
    by (simp add: is_data_access_def)
  ultimately show "hit_count st' + miss_count st' = hit_count st + miss_count st
           + (if instruct ln = CHR ''M'' then 2 else if is_data_access (instruct ln) then 1 else 0)"
    and "miss_count st \<le> miss_count st'" and "miss_count st' \<le> miss_count st + 1"
    and "hit_count st \<le> hit_count st'" and "hit_count st' \<le> hit_count st + 2"
    and "eviction_count st \<le> eviction_count st'"
    and "eviction_count st' - eviction_count st \<le> miss_count st' - miss_count st"
    and "instruct ln = CHR ''M'' \<Longrightarrow>
           (hit_count st' = hit_count st + 2 \<and> miss_count st' = miss_count st)
         \<or> (hit_count st' = hit_count st + 1 \<and> miss_count st' = miss_count st + 1)"
    and "is_data_access (instruct ln) \<Longrightarrow> instruct ln \<noteq> CHR ''M'' \<Longrightarrow>
           (hit_count st' = hit_count st + 1 \<and> miss_count st' = miss_count st)
         \<or> (hit_count st' = hit_count st \<and> miss_count st' = miss_count st + 1)"
    by (auto split: if_splits)
qed

lemma count_instruct_simps [simp]:
  "count_instruct c [] = 0"
  "count_instruct c (ln # lns) = (if instruct ln = c then 1 else 0) + count_instruct c lns"
  by (simp_all add: count_instruct_def)

lemma read_file_hits_misses:
  assumes "read_file s b E lns st = Inr st'" and "cache_ok E st"
  shows "hit_count st' + miss_count st' = hit_count st + miss_count st
           + int (count_instruct CHR ''L'' lns + count_instruct CHR ''S'' lns
                  + 2 * count_instruct CHR ''M'' lns)"
  using assms
proof (induction lns arbitrary: st)
  case Nil
  then show ?case by simp
next
  case (Cons ln lns)
  from Cons.prems(1) obtain st1 where st1: "process_line s b E ln st = Inr st1"
    and rest: "read_file s b E lns st1 = Inr st'"
    by (auto split: sum.splits)
  note ok1 = process_line_cache_ok(1) [OF st1 Cons.prems(2)]
  from Cons.IH [OF rest ok1] process_line_counters(1) [OF st1 Cons.prems(2)]
  show ?case by (auto simp add: is_data_access_def)
qed

lemma read_file_evictions:
  assumes "read_file s b E lns st = Inr st'" and "cache_ok E st"
  shows "eviction_count st' - eviction_count st \<le> miss_count st' - miss_count st"
  using assms
proof (induction lns arbitrary: st)
  case Nil
  then show ?case by simp
next
  case (Cons ln lns)
  from Cons.prems(1) obtain st1 where st1: "process_line s b E ln st = Inr st1"
    and rest: "read_file s b E lns st1 = Inr st'"
    by (auto split: sum.splits)
  note ok1 = process_line_cache_ok(1) [OF st1 Cons.prems(2)]
  from Cons.IH [OF rest ok1] process_line_counters(7) [OF st1 Cons.prems(2)]
  show ?case by simp
qed

subsection \<open>Runs without undefined behaviour\<close>

lemma decode_in_range:
  assumes "valid_geometry s b E S"
  obtains tg index where "decode s b addr = Inr (tg, index)" and "unat index < nat S"
proof -
  from assms have g: "0 \<le> s" "s \<le> 30" "0 \<le> b" "b + s \<le> 63" and S: "S = 2 ^ nat s"
    by (simp_all add: valid_geometry_def)
  have "unat (drop_bit (nat b) addr AND mask (nat s)) < nat S"
    by (simp add: unat_and_mask64 S nat_power_eq)
  with decode_defined [OF g, of addr] show ?thesis by (rule that)
qed

lemma process_line_defined:
  assumes geo: "valid_geometry s b E S" and ok: "cache_ok E st"
    and len: "length (cache st) = nat S"
    and h: "0 \<le> hit_count st" and m: "0 \<le> miss_count st"
    and e: "eviction_count st \<le> miss_count st"
    and room: "hit_count st + miss_count st
                 + (if instruct ln = CHR ''M'' then 2
                    else if is_data_access (instruct ln) then 1 else 0) \<le> INT_MAX"
  shows "\<exists>st'. process_line s b E ln st = Inr st'"
proof -
  from geo obtain tg index where dec: "decode s b (address ln) = Inr (tg, index)"
    and idx: "unat index < nat S"
    by (rule decode_in_range)
  from geo have E: "1 \<le> E" by (simp add: valid_geometry_def)
  show ?thesis
  proof (cases "is_data_access (instruct ln)")
    case False
    with dec show ?thesis by (simp add: process_line_skip)
  next
    case True
    let ?st1 = "st\<lparr>global_timer := global_timer st + 1\<rparr>"
    define st2 where "st2 = lookup_fill_evict E tg (unat index) ?st1"
    define st3 where "st3 = (if instruct ln = CHR ''M'' then st2\<lparr>hit_count := hit_count st2 + 1\<rparr> else st2)"
    have bounds: "in_bounds E (unat index) st"
      using ok idx len E by (intro in_bounds_cache_ok) simp_all
    from first_pass_counters [OF E, of tg "unat index" ?st1] h m e room True
    have "\<not> overflowed st3"
      unfolding st3_def st2_def overflowed_def by (auto split: if_splits)
    with process_line_access [OF True dec bounds E st2_def st3_def]
    show ?thesis by simp
  qed
qed

lemma read_file_defined:
  assumes "valid_geometry s b E S" and "cache_ok E st" and "length (cache st) = nat S"
    and "0 \<le> hit_count st" and "0 \<le> miss_count st"
    and "eviction_count st \<le> miss_count st"
    and "hit_count st + miss_count st
           + int (count_instruct CHR ''L'' lns + count_instruct CHR ''S'' lns
                  + 2 * count_instruct CHR ''M'' lns) \<le> INT_MAX"
  shows "\<exists>st'. read_file s b E lns st = Inr st'"
  using assms(2-)
proof (induction lns arbitrary: st)
  case Nil
  then show ?case by simp
next
  case (Cons ln lns)
  have "hit_count st + miss_count st
          + (if instruct ln = CHR ''M'' then 2
             else if is_data_access (instruct ln) then 1 else 0) \<le> INT_MAX"
    using Cons.prems(6) by (auto simp add: is_data_access_def)
  from process_line_defined [OF assms(1) Cons.prems(1-5) this]
  obtain st1 where st1: "process_line s b E ln st = Inr st1" by blast
  note c = process_line_counters [OF st1 Cons.prems(1)]
  note ok1 = process_line_cache_ok [OF st1 Cons.prems(1)]
  have "\<exists>st'. read_file s b E lns st1 = Inr st'"
  proof (rule Cons.IH)
    show "cache_ok E st1" by (rule ok1(1))
    show "length (cache st1) = nat S" using ok1(2) Cons.prems(2) by simp
    show "0 \<le> hit_count st1" using c(4) Cons.prems(3) by simp
    show "0 \<le> miss_count st1" using c(2) Cons.prems(4) by simp
    show "eviction_count st1 \<le> miss_count st1" using c(7) Cons.prems(5) by simp
    show "hit_count st1 + miss_count st1
           + int (count_instruct CHR ''L'' lns + count_instruct CHR ''S'' lns
                  + 2 * count_instruct CHR ''M'' lns) \<le> INT_MAX"
      using c(1) Cons.prems(6) by (auto simp add: is_data_access_def split: if_splits)
  qed
  with st1 show ?case by simp
qed

subsection \<open>Claims on the counters and the timer\<close>

text \<open>
  C2, as amended. From the zeroed cache, a trace that runs to its end without an \<open>int\<close>
  counter passing \<open>INT_MAX\<close> leaves \<open>hit_count + miss_count\<close> equal to the number of \<open>L\<close>
  lines plus the number of \<open>S\<close> lines plus twice the number of \<open>M\<close> lines; every \<open>L\<close> or
  \<open>S\<close> line of the run adds one hit or one miss, every \<open>M\<close> line one more hit than that;
  and on a valid geometry every trace for which that number is at most \<open>INT_MAX\<close> does
  run to its end, with that sum.
\<close>

theorem hits_plus_misses:
  "(\<forall>st. read_file s b E lns (initial S E) = Inr st \<longrightarrow>
      hit_count st + miss_count st
        = int (count_instruct CHR ''L'' lns + count_instruct CHR ''S'' lns
               + 2 * count_instruct CHR ''M'' lns))
   \<and> (\<forall>pre ln post st st'.
        lns = pre @ ln # post \<and> read_file s b E pre (initial S E) = Inr st
          \<and> process_line s b E ln st = Inr st' \<longrightarrow>
        (instruct ln = CHR ''L'' \<or> instruct ln = CHR ''S'' \<longrightarrow>
           (hit_count st' = hit_count st + 1 \<and> miss_count st' = miss_count st)
         \<or> (hit_count st' = hit_count st \<and> miss_count st' = miss_count st + 1))
        \<and> (instruct ln = CHR ''M'' \<longrightarrow>
           (hit_count st' = hit_count st + 2 \<and> miss_count st' = miss_count st)
         \<or> (hit_count st' = hit_count st + 1 \<and> miss_count st' = miss_count st + 1)))
   \<and> (valid_geometry s b E S
        \<and> int (count_instruct CHR ''L'' lns + count_instruct CHR ''S'' lns
               + 2 * count_instruct CHR ''M'' lns) \<le> INT_MAX \<longrightarrow>
        (\<exists>st. read_file s b E lns (initial S E) = Inr st
           \<and> hit_count st + miss_count st
               = int (count_instruct CHR ''L'' lns + count_instruct CHR ''S'' lns
                      + 2 * count_instruct CHR ''M'' lns)))"
proof (intro conjI allI impI)
  fix st assume "read_file s b E lns (initial S E) = Inr st"
  from read_file_hits_misses [OF this cache_ok_initial]
  show "hit_count st + miss_count st
        = int (count_instruct CHR ''L'' lns + count_instruct CHR ''S'' lns
               + 2 * count_instruct CHR ''M'' lns)"
    by (simp add: initial_def)
next
  fix pre ln post st st'
  assume a: "lns = pre @ ln # post \<and> read_file s b E pre (initial S E) = Inr st
          \<and> process_line s b E ln st = Inr st'"
  then have ok: "cache_ok E st" by (intro reachable_cache_ok(1)) blast
  from a have step: "process_line s b E ln st = Inr st'" by simp
  {
    assume "instruct ln = CHR ''L'' \<or> instruct ln = CHR ''S''"
    then have "is_data_access (instruct ln)" "instruct ln \<noteq> CHR ''M''"
      by (auto simp add: is_data_access_def)
    then show "(hit_count st' = hit_count st + 1 \<and> miss_count st' = miss_count st)
         \<or> (hit_count st' = hit_count st \<and> miss_count st' = miss_count st + 1)"
      by (rule process_line_counters(9) [OF step ok])
  next
    assume "instruct ln = CHR ''M''"
    then show "(hit_count st' = hit_count st + 2 \<and> miss_count st' = miss_count st)
         \<or> (hit_count st' = hit_count st + 1 \<and> miss_count st' = miss_count st + 1)"
      by (rule process_line_counters(8) [OF step ok])
  }
next
  assume a: "valid_geometry s b E S
        \<and> int (count_instruct CHR ''L'' lns + count_instruct CHR ''S'' lns
               + 2 * count_instruct CHR ''M'' lns) \<le> INT_MAX"
  then have "\<exists>st. read_file s b E lns (initial S E) = Inr st"
    by (intro read_file_defined [where S = S] cache_ok_initial)
      (simp_all add: initial_def init_cache_def)
  then obtain st where st: "read_file s b E lns (initial S E) = Inr st" ..
  from read_file_hits_misses [OF st cache_ok_initial]
  have "hit_count st + miss_count st
        = int (count_instruct CHR ''L'' lns + count_instruct CHR ''S'' lns
               + 2 * count_instruct CHR ''M'' lns)"
    by (simp add: initial_def)
  with st show "\<exists>st. read_file s b E lns (initial S E) = Inr st
           \<and> hit_count st + miss_count st
               = int (count_instruct CHR ''L'' lns + count_instruct CHR ''S'' lns
                      + 2 * count_instruct CHR ''M'' lns)"
    by blast
qed

theorem hits_plus_misses_witness:
  "valid_geometry 1 1 1 2 \<and>
   (\<exists>st. read_file 1 1 1
      [\<lparr>instruct = CHR ''L'', address = 0, size = 1\<rparr>,
       \<lparr>instruct = CHR ''M'', address = 4, size = 1\<rparr>,
       \<lparr>instruct = CHR ''I'', address = 8, size = 1\<rparr>,
       \<lparr>instruct = CHR ''S'', address = 0, size = 1\<rparr>] (initial 2 1) = Inr st
      \<and> hit_count st + miss_count st = 4)"
proof -
  let ?lns = "[\<lparr>instruct = CHR ''L'', address = 0, size = 1\<rparr>,
       \<lparr>instruct = CHR ''M'', address = 4, size = 1\<rparr>,
       \<lparr>instruct = CHR ''I'', address = 8, size = 1\<rparr>,
       \<lparr>instruct = CHR ''S'', address = 0, size = 1\<rparr>]"
  have g: "valid_geometry 1 1 1 2" by (simp add: valid_geometry_def)
  have w: "count_instruct CHR ''L'' ?lns + count_instruct CHR ''S'' ?lns
             + 2 * count_instruct CHR ''M'' ?lns = 4" by simp
  have l: "int (count_instruct CHR ''L'' ?lns + count_instruct CHR ''S'' ?lns
             + 2 * count_instruct CHR ''M'' ?lns) \<le> INT_MAX"
    unfolding w by (simp add: INT_MAX_def)
  from hits_plus_misses [of 1 1 1 ?lns 2] g l
  obtain st where st: "read_file 1 1 1 ?lns (initial 2 1) = Inr st"
    and "hit_count st + miss_count st
        = int (count_instruct CHR ''L'' ?lns + count_instruct CHR ''S'' ?lns
               + 2 * count_instruct CHR ''M'' ?lns)" by blast
  then have "hit_count st + miss_count st = 4" unfolding w by simp
  with g st show ?thesis by blast
qed

text \<open>
  C7, as amended. Every prefix of a trace that runs from the zeroed cache without an
  \<open>int\<close> counter passing \<open>INT_MAX\<close> runs too, and leaves \<open>eviction_count \<le> miss_count\<close>; on
  a valid geometry that is every prefix of a trace whose number of \<open>L\<close> and \<open>S\<close> lines plus
  twice its number of \<open>M\<close> lines is at most \<open>INT_MAX\<close>.
\<close>

theorem evictions_le_misses:
  "(read_file s b E lns (initial S E) = Inr st_end \<longrightarrow>
      (\<exists>st. read_file s b E (take n lns) (initial S E) = Inr st
         \<and> eviction_count st \<le> miss_count st))
   \<and> (valid_geometry s b E S
        \<and> int (count_instruct CHR ''L'' lns + count_instruct CHR ''S'' lns
               + 2 * count_instruct CHR ''M'' lns) \<le> INT_MAX \<longrightarrow>
      (\<exists>st. read_file s b E (take n lns) (initial S E) = Inr st
         \<and> eviction_count st \<le> miss_count st))"
proof -
  have prefix: "\<exists>st. read_file s b E (take n lns) (initial S E) = Inr st
         \<and> eviction_count st \<le> miss_count st"
    if "read_file s b E lns (initial S E) = Inr st_end" for st_end
  proof -
    from that have "read_file s b E (take n lns @ drop n lns) (initial S E) = Inr st_end"
      by simp
    then obtain st where st: "read_file s b E (take n lns) (initial S E) = Inr st"
      by (rule read_file_prefix)
    from read_file_evictions [OF st cache_ok_initial]
    have "eviction_count st \<le> miss_count st" by (simp add: initial_def)
    with st show ?thesis by blast
  qed
  have "\<exists>st_end. read_file s b E lns (initial S E) = Inr st_end"
    if "valid_geometry s b E S
        \<and> int (count_instruct CHR ''L'' lns + count_instruct CHR ''S'' lns
               + 2 * count_instruct CHR ''M'' lns) \<le> INT_MAX"
    using that
    by (intro read_file_defined [where S = S] cache_ok_initial)
      (simp_all add: initial_def init_cache_def)
  with prefix show ?thesis by blast
qed

theorem evictions_le_misses_witness:
  "valid_geometry 1 1 1 2 \<and>
   (\<exists>st. read_file 1 1 1
     (take 2 [\<lparr>instruct = CHR ''L'', address = 0, size = 1\<rparr>,
      \<lparr>instruct = CHR ''L'', address = 4, size = 1\<rparr>,
      \<lparr>instruct = CHR ''L'', address = 0, size = 1\<rparr>]) (initial 2 1) = Inr st
      \<and> eviction_count st \<le> miss_count st)"
proof -
  let ?lns = "[\<lparr>instruct = CHR ''L'', address = 0, size = 1\<rparr>,
      \<lparr>instruct = CHR ''L'', address = 4, size = 1\<rparr>,
      \<lparr>instruct = CHR ''L'', address = 0, size = 1\<rparr>]"
  have g: "valid_geometry 1 1 1 2" by (simp add: valid_geometry_def)
  have w: "count_instruct CHR ''L'' ?lns + count_instruct CHR ''S'' ?lns
             + 2 * count_instruct CHR ''M'' ?lns = 3" by simp
  have l: "int (count_instruct CHR ''L'' ?lns + count_instruct CHR ''S'' ?lns
             + 2 * count_instruct CHR ''M'' ?lns) \<le> INT_MAX"
    unfolding w by (simp add: INT_MAX_def)
  from g l have "valid_geometry 1 1 1 2
        \<and> int (count_instruct CHR ''L'' ?lns + count_instruct CHR ''S'' ?lns
               + 2 * count_instruct CHR ''M'' ?lns) \<le> INT_MAX" by (rule conjI)
  from mp [OF conjunct2 [OF evictions_le_misses] this, of 2]
  have "\<exists>st. read_file 1 1 1 (take 2 ?lns) (initial 2 1) = Inr st
      \<and> eviction_count st \<le> miss_count st" .
  with g show ?thesis by (rule conjI)
qed

text \<open>
  C6, as amended. A line whose instruction is not \<open>L\<close>, \<open>S\<close> or \<open>M\<close> leaves the three
  counters and every cache line as they are, and increments \<open>global_timer\<close> by one;
  every line that is processed, whatever its instruction, increments \<open>global_timer\<close> by
  exactly one.
\<close>

theorem instruction_line_effect:
  "(\<not> is_data_access (instruct ln) \<and> 0 \<le> s \<and> s \<le> 30 \<and> 0 \<le> b \<and> b + s \<le> 63 \<longrightarrow>
      process_line s b E ln st = Inr (st\<lparr>global_timer := global_timer st + 1\<rparr>))
   \<and> (process_line s b E ln st = Inr st' \<longrightarrow> global_timer st' = global_timer st + 1)"
  by (auto simp add: process_line_skip decode_defined process_line_timer)

theorem instruction_line_effect_witness:
  "\<not> is_data_access CHR ''I''
   \<and> process_line 1 1 1 \<lparr>instruct = CHR ''I'', address = 0, size = 1\<rparr> (initial 2 1)
       = Inr ((initial 2 1)\<lparr>global_timer := global_timer (initial 2 1) + 1\<rparr>)
   \<and> process_line 1 1 1 \<lparr>instruct = CHR ''L'', address = 0, size = 1\<rparr> (initial 2 1)
       = Inr \<lparr>cache = [[\<lparr>valid_bit = 1, lru = 1, tag = 0\<rparr>], [\<lparr>valid_bit = 0, lru = 0, tag = 0\<rparr>]],
              miss_count = 1, hit_count = 0, eviction_count = 0, global_timer = 1\<rparr>
   \<and> global_timer \<lparr>cache = [[\<lparr>valid_bit = 1, lru = 1, tag = 0\<rparr>], [\<lparr>valid_bit = 0, lru = 0, tag = 0\<rparr>]],
              miss_count = 1, hit_count = 0, eviction_count = 0, global_timer = 1\<rparr>
       = global_timer (initial 2 1) + 1"
proof -
  let ?I = "\<lparr>instruct = CHR ''I'', address = 0, size = 1\<rparr>"
  let ?L = "\<lparr>instruct = CHR ''L'', address = 0, size = 1\<rparr>"
  let ?st' = "\<lparr>cache = [[\<lparr>valid_bit = 1, lru = 1, tag = 0\<rparr>], [\<lparr>valid_bit = 0, lru = 0, tag = 0\<rparr>]],
              miss_count = 1, hit_count = 0, eviction_count = 0, global_timer = 1\<rparr>"
  have i: "\<not> is_data_access (instruct ?I) \<and> (0::int) \<le> 1 \<and> (1::int) \<le> 30 \<and> (0::int) \<le> 1
      \<and> (1::int) + 1 \<le> 63"
    by (simp add: is_data_access_def)
  have r: "process_line 1 1 1 ?L (initial 2 1) = Inr ?st'"
    by code_simp
  have 1: "process_line 1 1 1 ?I (initial 2 1)
       = Inr ((initial 2 1)\<lparr>global_timer := global_timer (initial 2 1) + 1\<rparr>)"
    by (rule mp [OF conjunct1 [OF instruction_line_effect] i])
  have 2: "global_timer ?st' = global_timer (initial 2 1) + 1"
    by (rule mp [OF conjunct2 [OF instruction_line_effect] r])
  have 3: "\<not> is_data_access CHR ''I''" by (simp add: is_data_access_def)
  show ?thesis using 1 2 3 r by (intro conjI)
qed

text \<open>
  C6 as stated fails: an \<open>I\<close> line changes \<open>global_timer\<close>, here from 0 to 1.
\<close>

theorem instruction_line_counterexample:
  "process_line 1 1 1 \<lparr>instruct = CHR ''I'', address = 0, size = 1\<rparr> (initial 2 1)
     = Inr ((initial 2 1)\<lparr>global_timer := 1\<rparr>)
   \<and> global_timer (initial 2 1) = 0"
  by (simp add: process_line_skip decode_defined initial_def is_data_access_def)

subsection \<open>The second lookup of a modify line\<close>





subsection \<open>Claims on the reachable caches\<close>

lemma cache_ok_no_duplicate_tags:
  assumes "cache_ok E st"
  shows "no_duplicate_tags st"
  using assms unfolding cache_ok_def no_duplicate_tags_def set_ok_def by blast

text \<open>
  C8. In a state reached from the zeroed cache by a trace, no set holds two valid lines
  with the same tag, and the same is true after any further line of trace.
\<close>

theorem no_duplicate_resident_tags:
  assumes "read_file s b E lns (initial S E) = Inr st"
  shows "no_duplicate_tags st
         \<and> (\<forall>ln st'. process_line s b E ln st = Inr st' \<longrightarrow> no_duplicate_tags st')"
proof -
  from assms have ok: "cache_ok E st" by (rule reachable_cache_ok)
  then have "no_duplicate_tags st" by (rule cache_ok_no_duplicate_tags)
  moreover have "no_duplicate_tags st'" if "process_line s b E ln st = Inr st'" for ln st'
    using process_line_cache_ok(1) [OF that ok] by (rule cache_ok_no_duplicate_tags)
  ultimately show ?thesis by blast
qed

theorem no_duplicate_resident_tags_witness:
  "no_duplicate_tags
     \<lparr>cache = [[\<lparr>valid_bit = 1, lru = 3, tag = 0\<rparr>, \<lparr>valid_bit = 1, lru = 4, tag = 2\<rparr>],
               [\<lparr>valid_bit = 0, lru = 0, tag = 0\<rparr>, \<lparr>valid_bit = 0, lru = 0, tag = 0\<rparr>]],
      miss_count = 3, hit_count = 1, eviction_count = 1, global_timer = 4\<rparr>
   \<and> no_duplicate_tags
     \<lparr>cache = [[\<lparr>valid_bit = 1, lru = 5, tag = 1\<rparr>, \<lparr>valid_bit = 1, lru = 4, tag = 2\<rparr>],
               [\<lparr>valid_bit = 0, lru = 0, tag = 0\<rparr>, \<lparr>valid_bit = 0, lru = 0, tag = 0\<rparr>]],
      miss_count = 4, hit_count = 1, eviction_count = 2, global_timer = 5\<rparr>"
proof -
  let ?st = "\<lparr>cache = [[\<lparr>valid_bit = 1, lru = 3, tag = 0\<rparr>, \<lparr>valid_bit = 1, lru = 4, tag = 2\<rparr>],
               [\<lparr>valid_bit = 0, lru = 0, tag = 0\<rparr>, \<lparr>valid_bit = 0, lru = 0, tag = 0\<rparr>]],
      miss_count = 3, hit_count = 1, eviction_count = 1, global_timer = 4\<rparr>"
  let ?st' = "\<lparr>cache = [[\<lparr>valid_bit = 1, lru = 5, tag = 1\<rparr>, \<lparr>valid_bit = 1, lru = 4, tag = 2\<rparr>],
               [\<lparr>valid_bit = 0, lru = 0, tag = 0\<rparr>, \<lparr>valid_bit = 0, lru = 0, tag = 0\<rparr>]],
      miss_count = 4, hit_count = 1, eviction_count = 2, global_timer = 5\<rparr>"
  have run: "read_file 1 1 2
      [\<lparr>instruct = CHR ''L'', address = 0, size = 1\<rparr>,
       \<lparr>instruct = CHR ''L'', address = 4, size = 1\<rparr>,
       \<lparr>instruct = CHR ''L'', address = 0, size = 1\<rparr>,
       \<lparr>instruct = CHR ''L'', address = 8, size = 1\<rparr>] (initial 2 2) = Inr ?st"
    by code_simp
  have step: "process_line 1 1 2 \<lparr>instruct = CHR ''S'', address = 4, size = 1\<rparr> ?st = Inr ?st'"
    by code_simp
  from no_duplicate_resident_tags [OF run] step show ?thesis by blast
qed

subsection \<open>Time stamps\<close>

lemma read_file_timer:
  assumes "read_file s b E lns st = Inr st'"
  shows "global_timer st' = global_timer st + of_nat (length lns)"
  using assms
proof (induction lns arbitrary: st)
  case Nil
  then show ?case by simp
next
  case (Cons ln lns)
  from Cons.prems obtain st1 where st1: "process_line s b E ln st = Inr st1"
    and rest: "read_file s b E lns st1 = Inr st'"
    by (auto split: sum.splits)
  from Cons.IH [OF rest] process_line_timer [OF st1] show ?case by simp
qed

lemma lines_stamped_update:
  assumes "lines_stamped st" and "valid_bit ln = 1 \<longrightarrow> lru ln \<noteq> 0"
    and "cache st' = (cache st)[index := (cache st ! index)[i := ln]]"
    and "index < length (cache st)"
  shows "lines_stamped st'"
  unfolding lines_stamped_def
proof (intro ballI impI)
  fix cs l assume cs: "cs \<in> set (cache st')" and l: "l \<in> set cs" and v: "valid_bit l = 1"
  from cs assms(3) set_update_subset_insert [of "cache st" index]
  have "cs = (cache st ! index)[i := ln] \<or> cs \<in> set (cache st)" by auto
  then show "lru l \<noteq> 0"
  proof
    assume "cs = (cache st ! index)[i := ln]"
    with l set_update_subset_insert [of "cache st ! index" i ln]
    have "l = ln \<or> l \<in> set (cache st ! index)" by auto
    with assms(1,2,4) v show ?thesis unfolding lines_stamped_def by (metis nth_mem)
  next
    assume "cs \<in> set (cache st)"
    with assms(1) l v show ?thesis unfolding lines_stamped_def by blast
  qed
qed

lemma process_line_stamped:
  assumes step: "process_line s b E ln st = Inr st'" and ok: "cache_ok E st"
    and stamped: "lines_stamped st" and timer: "global_timer st + 1 \<noteq> 0"
  shows "lines_stamped st'"
  using step ok
proof (cases rule: process_line_cases)
  case skip
  with stamped show ?thesis by (simp add: lines_stamped_def)
next
  case (access tg index st2)
  let ?st1 = "st\<lparr>global_timer := global_timer st + 1\<rparr>"
  have ok1: "cache_ok E ?st1" and idx1: "unat index < length (cache ?st1)"
    using ok access(3) by simp_all
  from access(4) ok1 idx1 obtain i l where l: "lru l = global_timer ?st1"
    and c: "cache (lookup_fill_evict E tg (unat index) ?st1)
              = (cache ?st1)[unat index := (cache ?st1 ! unat index)[i := l]]"
    by (rule first_pass_installs [where tg = tg])
  have "lines_stamped ?st1" using stamped by (simp add: lines_stamped_def)
  moreover have "valid_bit l = 1 \<longrightarrow> lru l \<noteq> 0" using l timer by simp
  moreover have "cache st' = (cache ?st1)[unat index := (cache ?st1 ! unat index)[i := l]]"
    using c access(5,6) by simp
  ultimately show ?thesis using idx1 by (rule lines_stamped_update)
qed

lemma word64_of_nat_nonzero:
  assumes "0 < n" and "n < 2 ^ 64"
  shows "(of_nat n :: 64 word) \<noteq> 0"
  using assms by (simp add: word_of_nat_eq_0_iff nat_dvd_not_less)

lemma reachable_stamped:
  assumes "read_file s b E lns (initial S E) = Inr st" and "length lns < 2 ^ 64"
  shows "lines_stamped st"
  using assms
proof (induction lns arbitrary: st rule: rev_induct)
  case Nil
  then have "st = initial S E" by simp
  then show ?case
    by (auto simp add: lines_stamped_def initial_def init_cache_def zero_line_def)
next
  case (snoc ln lns)
  from snoc.prems(1) obtain st1 where run: "read_file s b E lns (initial S E) = Inr st1"
    and step: "process_line s b E ln st1 = Inr st"
    by (auto simp add: read_file_snoc split: sum.splits)
  from snoc.prems(2) have short: "length lns < 2 ^ 64" and next_t: "Suc (length lns) < 2 ^ 64"
    by simp_all
  have "global_timer st1 + 1 = of_nat (Suc (length lns))"
    using read_file_timer [OF run] by (simp add: initial_def)
  with word64_of_nat_nonzero [OF _ next_t] have "global_timer st1 + 1 \<noteq> 0"
    by (simp add: add.commute)
  with step reachable_cache_ok(1) [OF run] snoc.IH [OF run short]
  show ?case by (rule process_line_stamped)
qed

text \<open>
  C10, as amended. In a state reached from the zeroed cache by a trace of fewer than
  \<open>2 ^ 64\<close> lines, a line has \<open>valid_bit = 1\<close> exactly when its \<open>lru\<close> is not 0, and a line
  with \<open>lru = 0\<close> is a line that was never filled: all its fields are 0.
\<close>

theorem valid_iff_stamped:
  assumes "read_file s b E lns (initial S E) = Inr st" and "length lns < 2 ^ 64"
    and "cs \<in> set (cache st)" and "ln \<in> set cs"
  shows "(valid_bit ln = 1 \<longleftrightarrow> lru ln \<noteq> 0) \<and> (lru ln = 0 \<longrightarrow> ln = zero_line)"
proof -
  from assms(1) have "cache_ok E st" by (rule reachable_cache_ok)
  with assms(3) have "set_ok cs" by (simp add: cache_ok_def)
  moreover from assms(4) obtain i where "i < length cs" and "cs ! i = ln"
    by (auto simp add: in_set_conv_nth)
  ultimately have untouched: "valid_bit ln \<noteq> 1 \<longrightarrow> ln = zero_line"
    unfolding set_ok_def by blast
  from reachable_stamped [OF assms(1,2)] assms(3,4)
  have "valid_bit ln = 1 \<longrightarrow> lru ln \<noteq> 0"
    unfolding lines_stamped_def by blast
  with untouched show ?thesis by (auto simp add: zero_line_def)
qed

theorem valid_iff_stamped_witness:
  "read_file 1 1 2
      [\<lparr>instruct = CHR ''L'', address = 0, size = 1\<rparr>,
       \<lparr>instruct = CHR ''L'', address = 4, size = 1\<rparr>,
       \<lparr>instruct = CHR ''L'', address = 0, size = 1\<rparr>,
       \<lparr>instruct = CHR ''L'', address = 8, size = 1\<rparr>] (initial 2 2)
     = Inr \<lparr>cache = [[\<lparr>valid_bit = 1, lru = 3, tag = 0\<rparr>, \<lparr>valid_bit = 1, lru = 4, tag = 2\<rparr>],
               [\<lparr>valid_bit = 0, lru = 0, tag = 0\<rparr>, \<lparr>valid_bit = 0, lru = 0, tag = 0\<rparr>]],
      miss_count = 3, hit_count = 1, eviction_count = 1, global_timer = 4\<rparr>
   \<and> (valid_bit \<lparr>valid_bit = 1, lru = 4, tag = 2\<rparr> = 1
        \<longleftrightarrow> lru \<lparr>valid_bit = 1, lru = 4, tag = 2\<rparr> \<noteq> 0)
   \<and> lru \<lparr>valid_bit = 0, lru = 0, tag = 0\<rparr> = 0
   \<and> \<lparr>valid_bit = 0, lru = 0, tag = 0\<rparr> = zero_line"
proof -
  let ?lns = "[\<lparr>instruct = CHR ''L'', address = 0, size = 1\<rparr>,
       \<lparr>instruct = CHR ''L'', address = 4, size = 1\<rparr>,
       \<lparr>instruct = CHR ''L'', address = 0, size = 1\<rparr>,
       \<lparr>instruct = CHR ''L'', address = 8, size = 1\<rparr>]"
  let ?s0 = "[\<lparr>valid_bit = 1, lru = 3, tag = 0\<rparr>, \<lparr>valid_bit = 1, lru = 4, tag = 2\<rparr>]"
  let ?s1 = "[\<lparr>valid_bit = 0, lru = 0, tag = 0\<rparr>, \<lparr>valid_bit = 0, lru = 0, tag = 0\<rparr>]"
  let ?st = "\<lparr>cache = [?s0, ?s1],
      miss_count = 3, hit_count = 1, eviction_count = 1, global_timer = 4\<rparr>"
  have run: "read_file 1 1 2 ?lns (initial 2 2) = Inr ?st"
    by code_simp
  have short: "length ?lns < 2 ^ 64" by simp
  have s0: "?s0 \<in> set (cache ?st)" and s1: "?s1 \<in> set (cache ?st)" by simp_all
  have l0: "\<lparr>valid_bit = 1, lru = 4, tag = 2\<rparr> \<in> set ?s0"
    and l1: "\<lparr>valid_bit = 0, lru = 0, tag = 0\<rparr> \<in> set ?s1" by simp_all
  have z: "lru \<lparr>valid_bit = 0, lru = 0, tag = 0\<rparr> = (0::ull)" by simp
  from valid_iff_stamped [OF run short s1 l1] z
  have "\<lparr>valid_bit = 0, lru = 0, tag = 0\<rparr> = zero_line" by blast
  with valid_iff_stamped [OF run short s0 l0] run z
  show ?thesis by (intro conjI) (elim conjE, assumption)+
qed

lemma read_file_instructions:
  assumes "\<not> is_data_access (instruct ln)" and "decode s b (address ln) = Inr (tg, index)"
  shows "read_file s b E (replicate n ln) st
           = Inr (st\<lparr>global_timer := global_timer st + of_nat n\<rparr>)"
proof (induction n arbitrary: st)
  case 0
  show ?case by simp
next
  case (Suc n)
  show ?case
    by (simp add: process_line_skip [OF assms] Suc.IH add.assoc add.commute)
qed

text \<open>
  C10 as stated fails when \<open>global_timer\<close> wraps around. It is incremented by every line
  of the trace, \<open>I\<close> lines included, so after \<open>2 ^ 64 - 1\<close> instruction lines it is
  \<open>2 ^ 64 - 1\<close>, and the load that follows stamps the line it fills with
  \<open>lru = 0\<close> while setting \<open>valid_bit = 1\<close>.
\<close>

theorem timer_wrap_counterexample:
  "read_file 1 1 1
     (replicate (2 ^ 64 - 1) \<lparr>instruct = CHR ''I'', address = 0, size = 1\<rparr>
        @ [\<lparr>instruct = CHR ''L'', address = 0, size = 1\<rparr>]) (initial 2 1)
   = Inr \<lparr>cache = [[\<lparr>valid_bit = 1, lru = 0, tag = 0\<rparr>], [\<lparr>valid_bit = 0, lru = 0, tag = 0\<rparr>]],
          miss_count = 1, hit_count = 0, eviction_count = 0, global_timer = 0\<rparr>"
proof -
  let ?I = "\<lparr>instruct = CHR ''I'', address = 0, size = 1\<rparr>"
  have i: "\<not> is_data_access (instruct ?I)" by (simp add: is_data_access_def)
  have d: "decode 1 1 (address ?I) = Inr (0, 0)" by code_simp
  have t: "(of_nat (2 ^ 64 - 1) :: 64 word) = - 1" by simp
  have "read_file 1 1 1 (replicate (2 ^ 64 - 1) ?I) (initial 2 1)
          = Inr ((initial 2 1)\<lparr>global_timer := - 1\<rparr>)"
    unfolding read_file_instructions [OF i d] t by (simp add: initial_def)
  moreover have "process_line 1 1 1 \<lparr>instruct = CHR ''L'', address = 0, size = 1\<rparr>
       ((initial 2 1)\<lparr>global_timer := - 1\<rparr>)
     = Inr \<lparr>cache = [[\<lparr>valid_bit = 1, lru = 0, tag = 0\<rparr>], [\<lparr>valid_bit = 0, lru = 0, tag = 0\<rparr>]],
          miss_count = 1, hit_count = 0, eviction_count = 0, global_timer = 0\<rparr>"
    by code_simp
  ultimately show ?thesis by (simp add: read_file_snoc)
qed

subsection \<open>Eviction\<close>


lemma line_overwritten:
  "ln\<lparr>tag := tg, valid_bit := v, lru := t\<rparr> = \<lparr>valid_bit = v, lru = t, tag = tg\<rparr>"
  by (cases ln) simp









subsection \<open>Runs that overflow a counter\<close>

lemma first_pass_one_line:
  assumes "index < length (cache st)" and "cache st ! index = [l0]"
  shows "lookup_fill_evict 1 tg index st =
    (if tag l0 = tg then
       (if valid_bit l0 = 1
        then st\<lparr>cache := (cache st)[index := [l0\<lparr>lru := global_timer st\<rparr>]],
                hit_count := hit_count st + 1\<rparr>
        else st\<lparr>cache := (cache st)[index := [l0\<lparr>valid_bit := 1, lru := global_timer st\<rparr>]],
                miss_count := miss_count st + 1\<rparr>)
     else if lru l0 = 0 then
       st\<lparr>cache := (cache st)[index := [\<lparr>valid_bit = 1, lru = global_timer st, tag = tg\<rparr>]],
          miss_count := miss_count st + 1\<rparr>
     else
       st\<lparr>cache := (cache st)[index := [\<lparr>valid_bit = 1, lru = global_timer st, tag = tg\<rparr>]],
          miss_count := miss_count st + 1, eviction_count := eviction_count st + 1\<rparr>)"
  using assms
  by (simp add: lookup_fill_evict_def lookup_body_def fill_body_def evict_def find_min_index_def
      min_body_def get_line_def set_line_def Let_def line_overwritten)

lemma one_line_load:
  assumes instr: "instruct ln = CHR ''L''"
    and dec: "decode s b (address ln) = Inr (tg, index)"
    and idx: "unat index < length (cache st)"
    and set: "cache st ! unat index = [l0]"
    and st3: "st3 = lookup_fill_evict 1 tg (unat index) (st\<lparr>global_timer := global_timer st + 1\<rparr>)"
  shows "process_line s b 1 ln st = (if overflowed st3 then Inl Signed_Overflow else Inr st3)"
proof -
  have data: "is_data_access (instruct ln)" using instr by (simp add: is_data_access_def)
  have bounds: "in_bounds 1 (unat index) st" using idx set by (simp add: in_bounds_def)
  have "st3 = (if instruct ln = CHR ''M'' then st3\<lparr>hit_count := hit_count st3 + 1\<rparr> else st3)"
    using instr by simp
  from process_line_access [OF data dec bounds _ st3 this] show ?thesis by simp
qed

lemma repeated_hits:
  assumes "int n \<le> INT_MAX"
  shows "read_file 1 1 1 (replicate (Suc n) \<lparr>instruct = CHR ''L'', address = 0, size = 1\<rparr>)
           (initial 2 1)
         = Inr \<lparr>cache = [[\<lparr>valid_bit = 1, lru = of_nat (Suc n), tag = 0\<rparr>],
                          [\<lparr>valid_bit = 0, lru = 0, tag = 0\<rparr>]],
                miss_count = 1, hit_count = int n, eviction_count = 0,
                global_timer = of_nat (Suc n)\<rparr>"
  using assms
proof (induction n)
  case 0
  show ?case by code_simp
next
  case (Suc n)
  let ?L = "\<lparr>instruct = CHR ''L'', address = 0, size = 1\<rparr>"
  let ?st = "\<lparr>cache = [[\<lparr>valid_bit = 1, lru = of_nat (Suc n), tag = 0\<rparr>],
                          [\<lparr>valid_bit = 0, lru = 0, tag = 0\<rparr>]],
                miss_count = 1, hit_count = int n, eviction_count = 0,
                global_timer = of_nat (Suc n)\<rparr>"
  from Suc have run: "read_file 1 1 1 (replicate (Suc n) ?L) (initial 2 1) = Inr ?st"
    by simp
  have dec: "decode 1 1 (address ?L) = Inr (0, 0)" by code_simp
  have step: "process_line 1 1 1 ?L ?st
         = Inr \<lparr>cache = [[\<lparr>valid_bit = 1, lru = of_nat (Suc (Suc n)), tag = 0\<rparr>],
                          [\<lparr>valid_bit = 0, lru = 0, tag = 0\<rparr>]],
                miss_count = 1, hit_count = int (Suc n), eviction_count = 0,
                global_timer = of_nat (Suc (Suc n))\<rparr>"
    using Suc.prems
    by (subst one_line_load [OF _ dec _ _ refl])
      (simp_all add: first_pass_one_line overflowed_def INT_MAX_def add.commute)
  have "replicate (Suc (Suc n)) ?L = replicate (Suc n) ?L @ [?L]"
    by (simp add: replicate_append_same)
  then show ?case
    using run step by (simp only: read_file_snoc sum.case)
qed


lemma alternating_misses:
  assumes "2 * int (Suc k) \<le> INT_MAX"
  shows "read_file 1 1 1
           (concat (replicate (Suc k) [\<lparr>instruct = CHR ''L'', address = 0, size = 1\<rparr>,
                                       \<lparr>instruct = CHR ''L'', address = 4, size = 1\<rparr>]))
           (initial 2 1)
         = Inr \<lparr>cache = [[\<lparr>valid_bit = 1, lru = of_nat (2 * Suc k), tag = 1\<rparr>],
                          [\<lparr>valid_bit = 0, lru = 0, tag = 0\<rparr>]],
                miss_count = 2 * int (Suc k), hit_count = 0,
                eviction_count = 2 * int (Suc k) - 1, global_timer = of_nat (2 * Suc k)\<rparr>"
  using assms
proof (induction k)
  case 0
  show ?case by code_simp
next
  case (Suc k)
  let ?A = "\<lparr>instruct = CHR ''L'', address = 0, size = 1\<rparr>"
  let ?B = "\<lparr>instruct = CHR ''L'', address = 4, size = 1\<rparr>"
  let ?st = "\<lparr>cache = [[\<lparr>valid_bit = 1, lru = of_nat (2 * Suc k), tag = 1\<rparr>],
                          [\<lparr>valid_bit = 0, lru = 0, tag = 0\<rparr>]],
                miss_count = 2 * int (Suc k), hit_count = 0,
                eviction_count = 2 * int (Suc k) - 1, global_timer = of_nat (2 * Suc k)\<rparr>"
  let ?mid = "\<lparr>cache = [[\<lparr>valid_bit = 1, lru = of_nat (Suc (2 * Suc k)), tag = 0\<rparr>],
                          [\<lparr>valid_bit = 0, lru = 0, tag = 0\<rparr>]],
                miss_count = 2 * int (Suc k) + 1, hit_count = 0,
                eviction_count = 2 * int (Suc k), global_timer = of_nat (Suc (2 * Suc k))\<rparr>"
  from Suc have run: "read_file 1 1 1 (concat (replicate (Suc k) [?A, ?B])) (initial 2 1) = Inr ?st"
    by simp
  from Suc.prems have small: "2 * Suc k < 2 ^ 64" "Suc (2 * Suc k) < 2 ^ 64"
    by (simp_all add: INT_MAX_def)
  have stamp1: "(of_nat (2 * Suc k) :: ull) \<noteq> 0"
    by (rule word64_of_nat_nonzero [OF _ small(1)]) simp
  have stamp2: "(of_nat (Suc (2 * Suc k)) :: ull) \<noteq> 0"
    by (rule word64_of_nat_nonzero [OF _ small(2)]) simp
  have decA: "decode 1 1 (address ?A) = Inr (0, 0)"
    and decB: "decode 1 1 (address ?B) = Inr (1, 0)" by code_simp+
  have step1: "process_line 1 1 1 ?A ?st = Inr ?mid"
    using Suc.prems stamp1
    by (subst one_line_load [OF _ decA _ _ refl])
      (simp_all add: first_pass_one_line overflowed_def INT_MAX_def add.commute)
  have step2: "process_line 1 1 1 ?B ?mid
         = Inr \<lparr>cache = [[\<lparr>valid_bit = 1, lru = of_nat (2 * Suc (Suc k)), tag = 1\<rparr>],
                          [\<lparr>valid_bit = 0, lru = 0, tag = 0\<rparr>]],
                miss_count = 2 * int (Suc (Suc k)), hit_count = 0,
                eviction_count = 2 * int (Suc (Suc k)) - 1,
                global_timer = of_nat (2 * Suc (Suc k))\<rparr>"
    using Suc.prems stamp2
    by (subst one_line_load [OF _ decB _ _ refl])
      (simp_all add: first_pass_one_line overflowed_def INT_MAX_def add.commute)
  have "concat (replicate (Suc (Suc k)) [?A, ?B]) = concat (replicate (Suc k) [?A, ?B]) @ [?A, ?B]"
  proof -
    have "replicate (Suc (Suc k)) [?A, ?B] = replicate (Suc k) [?A, ?B] @ [[?A, ?B]]"
      by (simp add: replicate_append_same)
    then show ?thesis by (simp only: concat_append concat.simps append_Nil2)
  qed
  then show ?case
    using run step1 step2 by (simp only: read_file_append read_file.simps sum.case)
qed


text \<open>
  C2 as stated fails for a trace that takes a counter past \<open>INT_MAX\<close>: after \<open>2 ^ 31\<close>
  loads of one address \<open>hit_count\<close> is \<open>INT_MAX\<close>, and the \<open>hit_count++\<close> of one more load
  overflows the \<open>int\<close>, so that the run has no final counters that could match the number
  of lines.
\<close>

theorem hits_overflow_counterexample:
  "read_file 1 1 1 (replicate (2 ^ 31) \<lparr>instruct = CHR ''L'', address = 0, size = 1\<rparr>)
     (initial 2 1)
   = Inr \<lparr>cache = [[\<lparr>valid_bit = 1, lru = 2147483648, tag = 0\<rparr>],
                    [\<lparr>valid_bit = 0, lru = 0, tag = 0\<rparr>]],
          miss_count = 1, hit_count = 2147483647, eviction_count = 0,
          global_timer = 2147483648\<rparr>
   \<and> read_file 1 1 1 (replicate (2 ^ 31 + 1) \<lparr>instruct = CHR ''L'', address = 0, size = 1\<rparr>)
       (initial 2 1)
     = Inl Signed_Overflow"
proof -
  let ?L = "\<lparr>instruct = CHR ''L'', address = 0, size = 1\<rparr>"
  let ?st = "\<lparr>cache = [[\<lparr>valid_bit = 1, lru = 2147483648, tag = 0\<rparr>],
                    [\<lparr>valid_bit = 0, lru = 0, tag = 0\<rparr>]],
          miss_count = 1, hit_count = 2147483647, eviction_count = 0,
          global_timer = 2147483648\<rparr>"
  have n: "Suc (2 ^ 31 - 1) = (2 ^ 31 :: nat)" by simp
  have "int (2 ^ 31 - 1) \<le> INT_MAX" by (simp add: INT_MAX_def)
  from repeated_hits [OF this]
  have run: "read_file 1 1 1 (replicate (2 ^ 31) ?L) (initial 2 1) = Inr ?st"
    unfolding n by simp
  have dec: "decode 1 1 (address ?L) = Inr (0, 0)" by code_simp
  have step: "process_line 1 1 1 ?L ?st = Inl Signed_Overflow"
    by (subst one_line_load [OF _ dec _ _ refl])
      (simp_all add: first_pass_one_line overflowed_def INT_MAX_def)
  have "replicate (2 ^ 31 + 1) ?L = replicate (2 ^ 31) ?L @ [?L]"
    by (simp only: replicate_add replicate_append_same replicate.simps One_nat_def)
  then have "read_file 1 1 1 (replicate (2 ^ 31 + 1) ?L) (initial 2 1) = Inl Signed_Overflow"
    using run step by (simp only: read_file_snoc sum.case)
  with run show ?thesis by (rule conjI)
qed

text \<open>
  C7 as stated fails for a trace that takes \<open>miss_count\<close> past \<open>INT_MAX\<close>: with one line
  per set and two alternating tags every load is a miss, after \<open>2 ^ 31 - 1\<close> loads
  \<open>miss_count\<close> is \<open>INT_MAX\<close> with \<open>eviction_count\<close> one less, and the \<open>miss_count++\<close> of the
  next load overflows the \<open>int\<close> while \<open>eviction_count\<close> can still grow.
\<close>

theorem misses_overflow_counterexample:
  "read_file 1 1 1
     (concat (replicate (2 ^ 30 - 1) [\<lparr>instruct = CHR ''L'', address = 0, size = 1\<rparr>,
                                     \<lparr>instruct = CHR ''L'', address = 4, size = 1\<rparr>])
        @ [\<lparr>instruct = CHR ''L'', address = 0, size = 1\<rparr>])
     (initial 2 1)
   = Inr \<lparr>cache = [[\<lparr>valid_bit = 1, lru = 2147483647, tag = 0\<rparr>],
                    [\<lparr>valid_bit = 0, lru = 0, tag = 0\<rparr>]],
          miss_count = 2147483647, hit_count = 0, eviction_count = 2147483646,
          global_timer = 2147483647\<rparr>
   \<and> read_file 1 1 1
       (concat (replicate (2 ^ 30) [\<lparr>instruct = CHR ''L'', address = 0, size = 1\<rparr>,
                                   \<lparr>instruct = CHR ''L'', address = 4, size = 1\<rparr>]))
       (initial 2 1)
     = Inl Signed_Overflow"
proof -
  let ?A = "\<lparr>instruct = CHR ''L'', address = 0, size = 1\<rparr>"
  let ?B = "\<lparr>instruct = CHR ''L'', address = 4, size = 1\<rparr>"
  let ?st = "\<lparr>cache = [[\<lparr>valid_bit = 1, lru = 2147483646, tag = 1\<rparr>],
                    [\<lparr>valid_bit = 0, lru = 0, tag = 0\<rparr>]],
          miss_count = 2147483646, hit_count = 0, eviction_count = 2147483645,
          global_timer = 2147483646\<rparr>"
  let ?mid = "\<lparr>cache = [[\<lparr>valid_bit = 1, lru = 2147483647, tag = 0\<rparr>],
                    [\<lparr>valid_bit = 0, lru = 0, tag = 0\<rparr>]],
          miss_count = 2147483647, hit_count = 0, eviction_count = 2147483646,
          global_timer = 2147483647\<rparr>"
  have k: "Suc (2 ^ 30 - 2) = (2 ^ 30 - 1 :: nat)" by simp
  have "2 * int (Suc (2 ^ 30 - 2)) \<le> INT_MAX" by (simp add: INT_MAX_def)
  from alternating_misses [OF this]
  have run: "read_file 1 1 1 (concat (replicate (2 ^ 30 - 1) [?A, ?B])) (initial 2 1) = Inr ?st"
    unfolding k by simp
  have decA: "decode 1 1 (address ?A) = Inr (0, 0)"
    and decB: "decode 1 1 (address ?B) = Inr (1, 0)" by code_simp+
  have step1: "process_line 1 1 1 ?A ?st = Inr ?mid"
    by (subst one_line_load [OF _ decA _ _ refl])
      (simp_all add: first_pass_one_line overflowed_def INT_MAX_def)
  have step2: "process_line 1 1 1 ?B ?mid = Inl Signed_Overflow"
    by (subst one_line_load [OF _ decB _ _ refl])
      (simp_all add: first_pass_one_line overflowed_def INT_MAX_def)
  have first: "read_file 1 1 1 (concat (replicate (2 ^ 30 - 1) [?A, ?B]) @ [?A]) (initial 2 1)
                 = Inr ?mid"
    using run step1 by (simp only: read_file_snoc sum.case)
  have "replicate (2 ^ 30) [?A, ?B] = replicate (2 ^ 30 - 1) [?A, ?B] @ [[?A, ?B]]"
  proof -
    have e: "(2 ^ 30 :: nat) = Suc (2 ^ 30 - 1)" by simp
    have "replicate (Suc (2 ^ 30 - 1)) [?A, ?B] = replicate (2 ^ 30 - 1) [?A, ?B] @ [[?A, ?B]]"
      by (simp only: replicate_append_same replicate.simps)
    with e show ?thesis by metis
  qed
  then have "concat (replicate (2 ^ 30) [?A, ?B])
               = (concat (replicate (2 ^ 30 - 1) [?A, ?B]) @ [?A]) @ [?B]"
    by (simp only: concat_append concat.simps append_Nil2 append.simps append_assoc)
  then have "read_file 1 1 1 (concat (replicate (2 ^ 30) [?A, ?B])) (initial 2 1)
               = Inl Signed_Overflow"
    using first step2 by (simp only: read_file_snoc sum.case)
  with first show ?thesis by (rule conjI)
qed

end
